theory Spec2Isabelle
  imports Complex_Main
begin

section \<open>The TimeSync engine (TimeSync.ts)\<close>

text \<open>
  The engine keeps a \<^verbatim>\<open>Map<number, Set<SubscriptionCallback>>\<close>, the handle of one
  pending timeout and the latest time value.  The unsubscribe function returned by
  \<^verbatim>\<open>subscribe\<close> closes over the \<^verbatim>\<open>Set\<close> object it was handed, so the model keeps
  the \<^verbatim>\<open>Set\<close> objects in a store addressed by reference: two closures made for the
  same bucket share one object, and a closure made for a bucket that has since been
  deleted still points at the old object.
\<close>

subsection \<open>Numbers, callbacks and time values\<close>

text \<open>
  A JavaScript number used as an interval: every finite double is a rational, and
  the two zeros are one key of a \<^verbatim>\<open>Map\<close> (SameValueZero), as \<^verbatim>\<open>NaN\<close> is.
\<close>

datatype jsnum = NaN | NegInfinity | Fin rat | Infinity

text \<open>The operator \<^verbatim>\<open><\<close> on numbers: false whenever an operand is \<^verbatim>\<open>NaN\<close>.\<close>

fun js_lt :: "jsnum \<Rightarrow> jsnum \<Rightarrow> bool" where
  "js_lt NaN b = False"
| "js_lt a NaN = False"
| "js_lt NegInfinity NegInfinity = False"
| "js_lt NegInfinity b = True"
| "js_lt (Fin x) NegInfinity = False"
| "js_lt (Fin x) (Fin y) = (x < y)"
| "js_lt (Fin x) Infinity = True"
| "js_lt Infinity b = False"

text \<open>
  A callback is a function object, known to the engine by its identity only; a
  \<^verbatim>\<open>Dayjs\<close> value is opaque to the engine as well.
\<close>

type_synonym callback = nat

type_synonym Dayjs = nat

type_synonym setref = nat

subsection \<open>The built-in Map and Set\<close>

text \<open>
  ECMAScript keeps the entries of a \<^verbatim>\<open>Map\<close> and of a \<^verbatim>\<open>Set\<close> in a list in insertion
  order.  Deleting an entry empties its slot and leaves the list as long as it was;
  adding appends.  An iterator is an index into that list and skips the empty slots,
  which is what makes deleting during a \<^verbatim>\<open>for ... of\<close> loop well defined.  An empty
  slot is \<open>None\<close>.
\<close>

type_synonym 'a slots = "'a option list"

fun entries :: "'a slots \<Rightarrow> 'a list" where
  "entries [] = []"
| "entries (None # es) = entries es"
| "entries (Some e # es) = e # entries es"

fun map_get :: "('k \<times> 'v) slots \<Rightarrow> 'k \<Rightarrow> 'v option" where
  "map_get [] k = None"
| "map_get (None # es) k = map_get es k"
| "map_get (Some (k', v) # es) k = (if k' = k then Some v else map_get es k)"

definition map_has :: "('k \<times> 'v) slots \<Rightarrow> 'k \<Rightarrow> bool" where
  "map_has es k = (map_get es k \<noteq> None)"

fun map_overwrite :: "('k \<times> 'v) slots \<Rightarrow> 'k \<Rightarrow> 'v \<Rightarrow> ('k \<times> 'v) slots" where
  "map_overwrite [] k v = []"
| "map_overwrite (None # es) k v = None # map_overwrite es k v"
| "map_overwrite (Some (k', v') # es) k v =
     (if k' = k then Some (k, v) # es else Some (k', v') # map_overwrite es k v)"

definition map_set :: "('k \<times> 'v) slots \<Rightarrow> 'k \<Rightarrow> 'v \<Rightarrow> ('k \<times> 'v) slots" where
  "map_set es k v = (if map_has es k then map_overwrite es k v else es @ [Some (k, v)])"

fun map_delete :: "('k \<times> 'v) slots \<Rightarrow> 'k \<Rightarrow> ('k \<times> 'v) slots" where
  "map_delete [] k = []"
| "map_delete (None # es) k = None # map_delete es k"
| "map_delete (Some (k', v) # es) k =
     (if k' = k then None # es else Some (k', v) # map_delete es k)"

definition map_keys :: "('k \<times> 'v) slots \<Rightarrow> 'k list" where
  "map_keys es = map fst (entries es)"

definition set_has :: "'a slots \<Rightarrow> 'a \<Rightarrow> bool" where
  "set_has xs x = (Some x \<in> set xs)"

definition set_add :: "'a slots \<Rightarrow> 'a \<Rightarrow> 'a slots" where
  "set_add xs x = (if set_has xs x then xs else xs @ [Some x])"

fun set_delete :: "'a slots \<Rightarrow> 'a \<Rightarrow> 'a slots" where
  "set_delete [] x = []"
| "set_delete (None # xs) x = None # set_delete xs x"
| "set_delete (Some y # xs) x = (if y = x then None # xs else Some y # set_delete xs x)"

definition set_size :: "'a slots \<Rightarrow> nat" where
  "set_size xs = length (entries xs)"

subsection \<open>Timers\<close>

text \<open>
  The engine is given a \<^verbatim>\<open>setTimeout\<close> and a \<^verbatim>\<open>clearTimeout\<close>, by default those of
  \<^verbatim>\<open>window\<close>.  A pair of timer primitives is modelled as a registry of pending
  timeouts: \<^verbatim>\<open>setTimeout\<close> registers the delay under a fresh handle and returns the
  handle, \<^verbatim>\<open>clearTimeout\<close> drops the timeout of a handle and does nothing for
  \<^verbatim>\<open>undefined\<close> or a handle it does not know.  The only function the engine ever
  schedules is its own \<^verbatim>\<open>tick\<close>.
\<close>

record timer_registry =
  next_handle :: nat
  pending :: "(nat \<times> jsnum) list"

definition no_timers :: timer_registry where
  "no_timers = \<lparr>next_handle = 1, pending = []\<rparr>"

definition reg_setTimeout :: "jsnum \<Rightarrow> timer_registry \<Rightarrow> nat \<times> timer_registry" where
  "reg_setTimeout ms reg =
     (next_handle reg,
      reg\<lparr>next_handle := Suc (next_handle reg), pending := pending reg @ [(next_handle reg, ms)]\<rparr>)"

definition reg_clearTimeout :: "nat option \<Rightarrow> timer_registry \<Rightarrow> timer_registry" where
  "reg_clearTimeout h reg =
     (case h of
        None \<Rightarrow> reg
      | Some i \<Rightarrow> reg\<lparr>pending := filter (\<lambda>p. fst p \<noteq> i) (pending reg)\<rparr>)"

subsection \<open>The state\<close>

text \<open>
  The private fields of the class, the store of \<^verbatim>\<open>Set\<close> objects, and the two timer
  registries an engine can touch: the one of \<^verbatim>\<open>window\<close> and the one behind the
  primitives passed to the constructor.  \<open>injected\<close> says whether the constructor was
  given primitives of its own; without them \<^verbatim>\<open>#setTimeout\<close> and \<^verbatim>\<open>#clearTimeout\<close> are
  those of \<^verbatim>\<open>window\<close>.
\<close>

record state =
  subscriptions :: "(jsnum \<times> setref) slots"
  nextTickId :: "nat option"
  nextTickMs :: "jsnum option"
  latestTime :: Dayjs
  injected :: bool
  heap :: "setref \<Rightarrow> callback slots"
  next_ref :: setref
  window_timers :: timer_registry
  injected_timers :: timer_registry

text \<open>The constructor (lines 29-37).\<close>

definition TimeSync_new :: "Dayjs \<Rightarrow> bool \<Rightarrow> state" where
  "TimeSync_new initialTime own_primitives =
     \<lparr>subscriptions = [], nextTickId = None, nextTickMs = None, latestTime = initialTime,
      injected = own_primitives, heap = (\<lambda>r. []), next_ref = 0,
      window_timers = no_timers, injected_timers = no_timers\<rparr>"

text \<open>The registry behind \<^verbatim>\<open>this.#setTimeout\<close> and \<^verbatim>\<open>this.#clearTimeout\<close>.\<close>

definition own_timers :: "state \<Rightarrow> timer_registry" where
  "own_timers s = (if injected s then injected_timers s else window_timers s)"

definition with_own_timers :: "timer_registry \<Rightarrow> state \<Rightarrow> state" where
  "with_own_timers reg s =
     (if injected s then s\<lparr>injected_timers := reg\<rparr> else s\<lparr>window_timers := reg\<rparr>)"

definition own_setTimeout :: "jsnum \<Rightarrow> state \<Rightarrow> nat \<times> state" where
  "own_setTimeout ms s =
     (case reg_setTimeout ms (own_timers s) of (h, reg) \<Rightarrow> (h, with_own_timers reg s))"

definition own_clearTimeout :: "nat option \<Rightarrow> state \<Rightarrow> state" where
  "own_clearTimeout h s = with_own_timers (reg_clearTimeout h (own_timers s)) s"

definition window_clearTimeout :: "nat option \<Rightarrow> state \<Rightarrow> state" where
  "window_clearTimeout h s = s\<lparr>window_timers := reg_clearTimeout h (window_timers s)\<rparr>"

subsection \<open>scheduleNextTick, getValue, subscribe, cleanup\<close>

text \<open>The loop of lines 59-64 over the keys of the map.\<close>

fun earliestPossibleUpdateMs :: "jsnum \<Rightarrow> jsnum list \<Rightarrow> jsnum" where
  "earliestPossibleUpdateMs acc [] = acc"
| "earliestPossibleUpdateMs acc (interval # rest) =
     earliestPossibleUpdateMs (if js_lt interval acc then interval else acc) rest"

text \<open>
  Lines 56-78.  The pending timeout is cleared first; when some key is below
  \<^verbatim>\<open>Infinity\<close> the field \<^verbatim>\<open>#nextTickMs\<close> is set to \<^verbatim>\<open>Infinity\<close> and a timeout with that
  delay is requested, whose handle goes to \<^verbatim>\<open>#nextTickId\<close>.
\<close>

definition scheduleNextTick :: "state \<Rightarrow> state" where
  "scheduleNextTick s =
     (let s1 = own_clearTimeout (nextTickId s) s in
      if earliestPossibleUpdateMs Infinity (map_keys (subscriptions s1)) = Infinity then s1
      else
        let s2 = s1\<lparr>nextTickMs := Some Infinity\<rparr> in
        case own_setTimeout Infinity s2 of (h, s3) \<Rightarrow> s3\<lparr>nextTickId := Some h\<rparr>)"

definition getValue :: "state \<Rightarrow> Dayjs" where
  "getValue s = latestTime s"

text \<open>
  The function returned by \<^verbatim>\<open>subscribe\<close> is a closure over \<^verbatim>\<open>subGroup\<close>, \<^verbatim>\<open>callback\<close>
  and \<^verbatim>\<open>maxUpdateIntervalMs\<close>: the three values are the closure.
\<close>

type_synonym unsubscribe_fn = "setref \<times> callback \<times> jsnum"

text \<open>
  Lines 84-102.  \<^verbatim>\<open>get(...) ?? new Set()\<close> allocates a \<^verbatim>\<open>Set\<close> only when the key is
  absent; the new bucket is put into the map and the schedule recomputed before the
  callback is added.
\<close>

definition subscribe :: "callback \<Rightarrow> jsnum \<Rightarrow> state \<Rightarrow> unsubscribe_fn \<times> state" where
  "subscribe cb maxUpdateIntervalMs s =
     (case map_get (subscriptions s) maxUpdateIntervalMs of
        Some subGroup \<Rightarrow>
          ((subGroup, cb, maxUpdateIntervalMs),
           s\<lparr>heap := (heap s)(subGroup := set_add (heap s subGroup) cb)\<rparr>)
      | None \<Rightarrow>
          let subGroup = next_ref s;
              s1 = s\<lparr>heap := (heap s)(subGroup := []), next_ref := Suc subGroup\<rparr>;
              s2 = scheduleNextTick
                     (s1\<lparr>subscriptions := map_set (subscriptions s1) maxUpdateIntervalMs subGroup\<rparr>)
          in ((subGroup, cb, maxUpdateIntervalMs),
              s2\<lparr>heap := (heap s2)(subGroup := set_add (heap s2 subGroup) cb)\<rparr>))"

text \<open>Lines 94-101: calling the returned function.\<close>

definition unsubscribe :: "unsubscribe_fn \<Rightarrow> state \<Rightarrow> state" where
  "unsubscribe u s =
     (case u of (subGroup, cb, maxUpdateIntervalMs) \<Rightarrow>
        let s1 = s\<lparr>heap := (heap s)(subGroup := set_delete (heap s subGroup) cb)\<rparr> in
        if set_size (heap s1 subGroup) = 0
        then scheduleNextTick
               (s1\<lparr>subscriptions := map_delete (subscriptions s1) maxUpdateIntervalMs\<rparr>)
        else s1)"

text \<open>Lines 104-109: \<^verbatim>\<open>cleanup\<close> calls \<^verbatim>\<open>window.clearTimeout\<close>.\<close>

definition cleanup :: "state \<Rightarrow> state" where
  "cleanup s =
     (case nextTickId s of
        None \<Rightarrow> s
      | Some h \<Rightarrow> (window_clearTimeout (Some h) s)\<lparr>nextTickId := None\<rparr>)"

subsection \<open>Callbacks and tick\<close>

text \<open>
  What a subscriber's callback does when it is called is not the engine's code.  A
  callback is taken to run a fixed sequence of calls into the engine, the calls the
  public interface gives it apart from \<^verbatim>\<open>subscribe\<close>: it may call unsubscribe
  functions, call \<^verbatim>\<open>cleanup\<close>, and it may throw, which ends it.  (\<^verbatim>\<open>getValue\<close> has no
  effect; what it would return at the moment of the call is recorded in the event.)
  A callback that subscribes during dispatch is outside this model.
\<close>

datatype action = CallUnsubscribe unsubscribe_fn | CallCleanup | Throw

datatype outcome = Returned | Threw

type_synonym behaviour = "callback \<Rightarrow> action list"

fun run_body :: "action list \<Rightarrow> state \<Rightarrow> state \<times> outcome" where
  "run_body [] s = (s, Returned)"
| "run_body (CallUnsubscribe u # rest) s = run_body rest (unsubscribe u s)"
| "run_body (CallCleanup # rest) s = run_body rest (cleanup s)"
| "run_body (Throw # rest) s = (s, Threw)"

text \<open>
  One call \<^verbatim>\<open>callback(newTime)\<close>, as an observer sees it: the key of the bucket being
  walked, the callback, the argument, and the value \<^verbatim>\<open>getValue()\<close> has at that moment.
\<close>

datatype event = Notified (ev_key: jsnum) (ev_callback: callback) (ev_arg: Dayjs) (ev_seen: Dayjs)

lemma length_set_delete: "length (set_delete xs x) = length xs"
  by (induction xs x rule: set_delete.induct) simp_all

lemma length_map_delete: "length (map_delete es k) = length es"
  by (induction es k rule: map_delete.induct) simp_all

lemma heap_with_own_timers [simp]: "heap (with_own_timers reg s) = heap s"
  by (simp add: with_own_timers_def)

lemma subscriptions_with_own_timers [simp]:
  "subscriptions (with_own_timers reg s) = subscriptions s"
  by (simp add: with_own_timers_def)

lemma latestTime_with_own_timers [simp]: "latestTime (with_own_timers reg s) = latestTime s"
  by (simp add: with_own_timers_def)

lemma heap_scheduleNextTick [simp]: "heap (scheduleNextTick s) = heap s"
  by (simp add: scheduleNextTick_def own_clearTimeout_def own_setTimeout_def Let_def
      split: prod.splits)

lemma subscriptions_scheduleNextTick [simp]:
  "subscriptions (scheduleNextTick s) = subscriptions s"
  by (simp add: scheduleNextTick_def own_clearTimeout_def own_setTimeout_def Let_def
      split: prod.splits)

lemma latestTime_scheduleNextTick [simp]: "latestTime (scheduleNextTick s) = latestTime s"
  by (simp add: scheduleNextTick_def own_clearTimeout_def own_setTimeout_def Let_def
      split: prod.splits)

lemma heap_cleanup [simp]: "heap (cleanup s) = heap s"
  by (simp add: cleanup_def window_clearTimeout_def split: option.splits)

lemma subscriptions_cleanup [simp]: "subscriptions (cleanup s) = subscriptions s"
  by (simp add: cleanup_def window_clearTimeout_def split: option.splits)

lemma latestTime_cleanup [simp]: "latestTime (cleanup s) = latestTime s"
  by (simp add: cleanup_def window_clearTimeout_def split: option.splits)

lemma heap_unsubscribe:
  "heap (unsubscribe (r, cb, k) s) = (heap s)(r := set_delete (heap s r) cb)"
  by (simp add: unsubscribe_def Let_def)

lemma subscriptions_unsubscribe:
  "subscriptions (unsubscribe (r, cb, k) s) =
     (if set_size (set_delete (heap s r) cb) = 0 then map_delete (subscriptions s) k
      else subscriptions s)"
  by (simp add: unsubscribe_def Let_def)

lemma latestTime_unsubscribe [simp]: "latestTime (unsubscribe u s) = latestTime s"
  by (cases u) (simp add: unsubscribe_def Let_def)

lemma length_heap_unsubscribe [simp]: "length (heap (unsubscribe u s) r) = length (heap s r)"
  by (cases u) (simp add: heap_unsubscribe length_set_delete)

lemma length_subscriptions_unsubscribe [simp]:
  "length (subscriptions (unsubscribe u s)) = length (subscriptions s)"
  by (cases u) (simp add: subscriptions_unsubscribe length_map_delete)

lemma run_body_lengths:
  "run_body acts s = (s', out) \<Longrightarrow>
     length (heap s' r) = length (heap s r) \<and>
     length (subscriptions s') = length (subscriptions s)"
  by (induction acts s rule: run_body.induct) auto

lemma run_body_latestTime: "run_body acts s = (s', out) \<Longrightarrow> latestTime s' = latestTime s"
  by (induction acts s rule: run_body.induct) auto

text \<open>
  The inner loop of \<^verbatim>\<open>tick\<close> (lines 47-52): the iterator of the \<^verbatim>\<open>Set\<close> object
  \<open>subGroup\<close> stands at slot \<open>idx\<close>.  An exception thrown by a callback is not caught
  anywhere in \<^verbatim>\<open>tick\<close>: it ends the loop.
\<close>

function dispatch_group ::
  "behaviour \<Rightarrow> Dayjs \<Rightarrow> jsnum \<Rightarrow> setref \<Rightarrow> nat \<Rightarrow> state \<Rightarrow> state \<times> event list \<times> outcome" where
  "dispatch_group body newTime key subGroup idx s =
     (if idx < length (heap s subGroup) then
        (case heap s subGroup ! idx of
           None \<Rightarrow> dispatch_group body newTime key subGroup (Suc idx) s
         | Some cb \<Rightarrow>
             (case run_body (body cb) s of
                (s', Threw) \<Rightarrow> (s', [Notified key cb newTime (getValue s)], Threw)
              | (s', Returned) \<Rightarrow>
                  (case dispatch_group body newTime key subGroup (Suc idx) s' of
                     (s'', evs, out) \<Rightarrow>
                       (s'', Notified key cb newTime (getValue s) # evs, out))))
      else (s, [], Returned))"
  by pat_completeness auto

termination
proof (relation
    "measure (\<lambda>(body, newTime, key, subGroup, idx, s). length (heap s subGroup) - idx)",
    goal_cases)
  case 1
  show ?case by simp
next
  case 2
  then show ?case by simp
next
  case 3
  from run_body_lengths [OF 3(3) [symmetric]] 3(1) show ?case by simp
qed

declare dispatch_group.simps [simp del]

lemma dispatch_group_done:
  "\<not> idx < length (heap s r) \<Longrightarrow> dispatch_group body t key r idx s = (s, [], Returned)"
  by (simp add: dispatch_group.simps)

lemma dispatch_group_skip:
  "idx < length (heap s r) \<Longrightarrow> heap s r ! idx = None \<Longrightarrow>
     dispatch_group body t key r idx s = dispatch_group body t key r (Suc idx) s"
  by (subst dispatch_group.simps) simp

lemma dispatch_group_threw:
  "idx < length (heap s r) \<Longrightarrow> heap s r ! idx = Some cb \<Longrightarrow>
   run_body (body cb) s = (s1, Threw) \<Longrightarrow>
     dispatch_group body t key r idx s = (s1, [Notified key cb t (getValue s)], Threw)"
  by (subst dispatch_group.simps) simp

lemma dispatch_group_returned:
  "idx < length (heap s r) \<Longrightarrow> heap s r ! idx = Some cb \<Longrightarrow>
   run_body (body cb) s = (s1, Returned) \<Longrightarrow>
   dispatch_group body t key r (Suc idx) s1 = (s2, evs, out) \<Longrightarrow>
     dispatch_group body t key r idx s = (s2, Notified key cb t (getValue s) # evs, out)"
  by (subst dispatch_group.simps) simp

lemma dispatch_group_induct [consumes 0, case_names finished skip call]:
  assumes d: "\<And>idx s. \<not> idx < length (heap s r) \<Longrightarrow> P idx s"
    and k: "\<And>idx s. idx < length (heap s r) \<Longrightarrow> heap s r ! idx = None \<Longrightarrow>
              P (Suc idx) s \<Longrightarrow> P idx s"
    and c: "\<And>idx s cb s1 o1. idx < length (heap s r) \<Longrightarrow> heap s r ! idx = Some cb \<Longrightarrow>
              run_body (body cb) s = (s1, o1) \<Longrightarrow> (o1 = Returned \<Longrightarrow> P (Suc idx) s1) \<Longrightarrow>
              P idx s"
  shows "P idx s"
proof -
  have "b = body \<longrightarrow> r' = r \<longrightarrow> P idx s" for b :: behaviour and t :: Dayjs and key :: jsnum and r'
  proof (induction b t key r' idx s rule: dispatch_group.induct)
    case (1 b newTime key subGroup idx s)
    show ?case
    proof (intro impI)
      assume eq: "b = body" "subGroup = r"
      show "P idx s"
      proof (cases "idx < length (heap s r)")
        case False
        then show ?thesis by (rule d)
      next
        case lt: True
        show ?thesis
        proof (cases "heap s r ! idx")
          case None
          with "1.IH"(1) lt eq show ?thesis by (auto intro: k)
        next
          case (Some cb)
          obtain s1 o1 where rb: "run_body (body cb) s = (s1, o1)"
            by (cases "run_body (body cb) s")
          show ?thesis
          proof (rule c [OF lt Some rb])
            assume "o1 = Returned"
            with "1.IH"(2) [of cb s1 o1] lt Some rb eq show "P (Suc idx) s1" by simp
          qed
        qed
      qed
    qed
  qed
  then show ?thesis by simp
qed

text \<open>A relation that every callback keeps is kept by the loop.\<close>

lemma dispatch_group_rel:
  assumes rf: "\<And>s. R s s"
    and tr: "\<And>a b c. R a b \<Longrightarrow> R b c \<Longrightarrow> R a c"
    and st: "\<And>cb s s1 o1. run_body (body cb) s = (s1, o1) \<Longrightarrow> R s s1"
  shows "dispatch_group body t key r idx s = (s', evs, out) \<Longrightarrow> R s s'"
proof (induction idx s arbitrary: s' evs out rule: dispatch_group_induct [where body = body and r = r])
  case (finished idx s)
  then show ?case by (simp add: dispatch_group_done rf)
next
  case (skip idx s)
  from skip.prems have "dispatch_group body t key r (Suc idx) s = (s', evs, out)"
    by (simp add: dispatch_group_skip [OF skip(1,2)])
  then show ?case by (rule skip.IH)
next
  case (call idx s cb s1 o1)
  show ?case
  proof (cases o1)
    case Threw
    with dispatch_group_threw [OF call(1,2), of body s1 t key] call(3) call.prems
    have "s' = s1" by simp
    with st [OF call(3)] show ?thesis by simp
  next
    case Returned
    obtain s2 evs2 o2 where dg: "dispatch_group body t key r (Suc idx) s1 = (s2, evs2, o2)"
      by (cases "dispatch_group body t key r (Suc idx) s1") auto
    from dispatch_group_returned [OF call(1,2) call(3) [unfolded Returned] dg] call.prems
    have "s' = s2" by simp
    with call.IH [OF Returned dg] st [OF call(3)] show ?thesis by (auto intro: tr)
  qed
qed

lemma dispatch_group_lengths:
  assumes "dispatch_group body t key r idx s = (s', evs, out)"
  shows "length (subscriptions s') = length (subscriptions s)"
  by (rule dispatch_group_rel [where R = "\<lambda>a b. length (subscriptions b) = length (subscriptions a)",
        OF _ _ _ assms]) (auto dest: run_body_lengths)

function dispatch_all ::
  "behaviour \<Rightarrow> Dayjs \<Rightarrow> nat \<Rightarrow> state \<Rightarrow> state \<times> event list \<times> outcome" where
  "dispatch_all body newTime idx s =
     (if idx < length (subscriptions s) then
        (case subscriptions s ! idx of
           None \<Rightarrow> dispatch_all body newTime (Suc idx) s
         | Some (key, subGroup) \<Rightarrow>
             (case dispatch_group body newTime key subGroup 0 s of
                (s', evs, Threw) \<Rightarrow> (s', evs, Threw)
              | (s', evs, Returned) \<Rightarrow>
                  (case dispatch_all body newTime (Suc idx) s' of
                     (s'', evs', out) \<Rightarrow> (s'', evs @ evs', out))))
      else (s, [], Returned))"
  by pat_completeness auto

termination
proof (relation
    "measure (\<lambda>(body, newTime, idx, s). length (subscriptions s) - idx)", goal_cases)
  case 1
  show ?case by simp
next
  case 2
  then show ?case by simp
next
  case 3
  then show ?case by (auto dest: dispatch_group_lengths [OF sym])
qed

declare dispatch_all.simps [simp del]

text \<open>
  \<^verbatim>\<open>tick\<close> (lines 42-54): the new time is stored first, then the outer loop walks the
  buckets of the map from its first slot.  \<open>newTime\<close> is what \<^verbatim>\<open>dayjs()\<close> returns.
\<close>

definition tick :: "behaviour \<Rightarrow> Dayjs \<Rightarrow> state \<Rightarrow> state \<times> event list \<times> outcome" where
  "tick body newTime s = dispatch_all body newTime 0 (s\<lparr>latestTime := newTime\<rparr>)"

text \<open>
  A pending timeout of the engine's own registry elapses: the registry forgets it and
  calls \<^verbatim>\<open>tick\<close>.  \<open>None\<close> when the handle is not pending, so that nothing is called.
\<close>

definition fire :: "behaviour \<Rightarrow> Dayjs \<Rightarrow> nat \<Rightarrow> state \<Rightarrow> (state \<times> event list \<times> outcome) option" where
  "fire body now h s =
     (if h \<in> fst ` set (pending (own_timers s))
      then Some (tick body now (own_clearTimeout (Some h) s))
      else None)"

lemma dispatch_all_done:
  "\<not> idx < length (subscriptions s) \<Longrightarrow> dispatch_all body t idx s = (s, [], Returned)"
  by (simp add: dispatch_all.simps)

lemma dispatch_all_skip:
  "idx < length (subscriptions s) \<Longrightarrow> subscriptions s ! idx = None \<Longrightarrow>
     dispatch_all body t idx s = dispatch_all body t (Suc idx) s"
  by (subst dispatch_all.simps) simp

lemma dispatch_all_threw:
  "idx < length (subscriptions s) \<Longrightarrow> subscriptions s ! idx = Some (key, r) \<Longrightarrow>
   dispatch_group body t key r 0 s = (s1, evs, Threw) \<Longrightarrow>
     dispatch_all body t idx s = (s1, evs, Threw)"
  by (subst dispatch_all.simps) simp

lemma dispatch_all_returned:
  "idx < length (subscriptions s) \<Longrightarrow> subscriptions s ! idx = Some (key, r) \<Longrightarrow>
   dispatch_group body t key r 0 s = (s1, evs, Returned) \<Longrightarrow>
   dispatch_all body t (Suc idx) s1 = (s2, evs', out) \<Longrightarrow>
     dispatch_all body t idx s = (s2, evs @ evs', out)"
  by (subst dispatch_all.simps) simp

lemma dispatch_all_induct [consumes 0, case_names finished skip bucket]:
  assumes d: "\<And>idx s. \<not> idx < length (subscriptions s) \<Longrightarrow> P idx s"
    and k: "\<And>idx s. idx < length (subscriptions s) \<Longrightarrow> subscriptions s ! idx = None \<Longrightarrow>
              P (Suc idx) s \<Longrightarrow> P idx s"
    and c: "\<And>idx s key r s1 evs o1. idx < length (subscriptions s) \<Longrightarrow>
              subscriptions s ! idx = Some (key, r) \<Longrightarrow>
              dispatch_group body t key r 0 s = (s1, evs, o1) \<Longrightarrow>
              (o1 = Returned \<Longrightarrow> P (Suc idx) s1) \<Longrightarrow> P idx s"
  shows "P idx s"
proof -
  have "b = body \<longrightarrow> t' = t \<longrightarrow> P idx s" for b :: behaviour and t' :: Dayjs
  proof (induction b t' idx s rule: dispatch_all.induct)
    case (1 b newTime idx s)
    show ?case
    proof (intro impI)
      assume eq: "b = body" "newTime = t"
      show "P idx s"
      proof (cases "idx < length (subscriptions s)")
        case False
        then show ?thesis by (rule d)
      next
        case lt: True
        show ?thesis
        proof (cases "subscriptions s ! idx")
          case None
          with "1.IH"(1) lt eq show ?thesis by (auto intro: k)
        next
          case (Some e)
          obtain key r where e: "e = (key, r)" by (cases e)
          obtain s1 evs o1 where dg: "dispatch_group body t key r 0 s = (s1, evs, o1)"
            by (cases "dispatch_group body t key r 0 s") auto
          show ?thesis
          proof (rule c [OF lt Some [unfolded e] dg])
            assume ret: "o1 = Returned"
            from dg eq have dg': "(s1, evs, o1) = dispatch_group b newTime key r 0 s" by simp
            from "1.IH"(2) [OF lt Some e [symmetric] dg' refl ret] eq
            show "P (Suc idx) s1" by simp
          qed
        qed
      qed
    qed
  qed
  then show ?thesis by simp
qed

lemma dispatch_all_rel:
  assumes rf: "\<And>s. R s s"
    and tr: "\<And>a b c. R a b \<Longrightarrow> R b c \<Longrightarrow> R a c"
    and st: "\<And>cb s s1 o1. run_body (body cb) s = (s1, o1) \<Longrightarrow> R s s1"
  shows "dispatch_all body t idx s = (s', evs, out) \<Longrightarrow> R s s'"
proof (induction idx s arbitrary: s' evs out rule: dispatch_all_induct [where body = body and t = t])
  case (finished idx s)
  then show ?case by (simp add: dispatch_all_done rf)
next
  case (skip idx s)
  from skip.prems have "dispatch_all body t (Suc idx) s = (s', evs, out)"
    by (simp add: dispatch_all_skip [OF skip(1,2)])
  then show ?case by (rule skip.IH)
next
  case (bucket idx s key r s1 evs1 o1)
  have g: "R s s1"
  proof (rule dispatch_group_rel [where R = R and body = body, OF _ _ _ bucket(3)])
    show "R a a" for a by (rule rf)
    show "R a b \<Longrightarrow> R b c \<Longrightarrow> R a c" for a b c by (rule tr)
    show "run_body (body cb) a = (b, o') \<Longrightarrow> R a b" for cb a b o' by (rule st)
  qed
  show ?case
  proof (cases o1)
    case Threw
    with dispatch_all_threw [OF bucket(1,2), of body t s1 evs1] bucket(3) bucket.prems
    have "s' = s1" by simp
    with g show ?thesis by simp
  next
    case Returned
    obtain s2 evs2 o2 where da: "dispatch_all body t (Suc idx) s1 = (s2, evs2, o2)"
      by (cases "dispatch_all body t (Suc idx) s1") auto
    from dispatch_all_returned [OF bucket(1,2) bucket(3) [unfolded Returned] da] bucket.prems
    have "s' = s2" by simp
    with bucket.IH [OF Returned da] g show ?thesis by (auto intro: tr)
  qed
qed

subsection \<open>Sessions: sequences of calls from outside\<close>

text \<open>
  What a user of the engine can do: call \<^verbatim>\<open>subscribe\<close>, call one of the functions
  \<^verbatim>\<open>subscribe\<close> has returned so far (by its position among them), call \<^verbatim>\<open>cleanup\<close>;
  and a pending timeout can elapse.  A session keeps the functions returned and, for
  the claims that speak of live subscriptions, which of them have been called.
\<close>

datatype call = Subscribe callback jsnum | Unsubscribe nat | Cleanup | TimerFires nat Dayjs

record session =
  engine :: state
  returned :: "unsubscribe_fn list"
  invoked :: "nat list"

definition new_session :: "Dayjs \<Rightarrow> bool \<Rightarrow> session" where
  "new_session initialTime own_primitives =
     \<lparr>engine = TimeSync_new initialTime own_primitives, returned = [], invoked = []\<rparr>"

fun perform :: "behaviour \<Rightarrow> session \<Rightarrow> call \<Rightarrow> session" where
  "perform body ss (Subscribe cb k) =
     (case subscribe cb k (engine ss) of
        (u, s') \<Rightarrow> ss\<lparr>engine := s', returned := returned ss @ [u]\<rparr>)"
| "perform body ss (Unsubscribe n) =
     (if n < length (returned ss)
      then ss\<lparr>engine := unsubscribe (returned ss ! n) (engine ss), invoked := n # invoked ss\<rparr>
      else ss)"
| "perform body ss Cleanup = ss\<lparr>engine := cleanup (engine ss)\<rparr>"
| "perform body ss (TimerFires h now) =
     (case fire body now h (engine ss) of
        None \<Rightarrow> ss
      | Some (s', evs, out) \<Rightarrow> ss\<lparr>engine := s'\<rparr>)"

definition run :: "behaviour \<Rightarrow> call list \<Rightarrow> session \<Rightarrow> session" where
  "run body calls ss = foldl (perform body) ss calls"

fun is_timer :: "call \<Rightarrow> bool" where
  "is_timer (TimerFires h now) = True"
| "is_timer c = False"

text \<open>
  The intervals of the subscriptions that are live: made, and their unsubscribe
  function not called yet.
\<close>

definition live_intervals :: "session \<Rightarrow> jsnum list" where
  "live_intervals ss =
     map (\<lambda>p. snd (snd (snd p)))
       (filter (\<lambda>p. fst p \<notin> set (invoked ss)) (enumerate 0 (returned ss)))"

subsection \<open>What an observer sees of the engine\<close>

text \<open>The buckets in insertion order, each with its callbacks in insertion order.\<close>

definition buckets :: "state \<Rightarrow> (jsnum \<times> callback list) list" where
  "buckets s = map (\<lambda>e. (fst e, entries (heap s (snd e)))) (entries (subscriptions s))"

text \<open>A callback that returns at once.\<close>

definition inert :: behaviour where
  "inert cb = []"

subsection \<open>Subscribers and the trace of a tick\<close>

text \<open>
  A subscriber is a callback in a bucket: the pair of the bucket's key and the
  callback.  \<open>subscribers\<close> lists them in the order the two loops of \<^verbatim>\<open>tick\<close> meet them.
\<close>

definition subscribers :: "state \<Rightarrow> (jsnum \<times> callback) list" where
  "subscribers s = concat (map (\<lambda>b. map (Pair (fst b)) (snd b)) (buckets s))"

definition ev_subscriber :: "event \<Rightarrow> jsnum \<times> callback" where
  "ev_subscriber ev = (ev_key ev, ev_callback ev)"

fun is_unsubscribe :: "action \<Rightarrow> bool" where
  "is_unsubscribe (CallUnsubscribe u) = True"
| "is_unsubscribe a = False"

text \<open>The subscribers the loops have still to meet, from slot \<open>idx\<close> of the map on.\<close>

definition subscribers_from :: "nat \<Rightarrow> state \<Rightarrow> (jsnum \<times> callback) list" where
  "subscribers_from idx s =
     concat (map (\<lambda>e. map (Pair (fst e)) (entries (heap s (snd e))))
       (entries (drop idx (subscriptions s))))"

text \<open>
  Where the loops stop when no callback unsubscribes: at the first subscriber whose
  callback throws.
\<close>

fun deliver :: "behaviour \<Rightarrow> (jsnum \<times> callback) list \<Rightarrow> (jsnum \<times> callback) list \<times> outcome" where
  "deliver body [] = ([], Returned)"
| "deliver body (p # ps) =
     (if Throw \<in> set (body (snd p)) then ([p], Threw)
      else (case deliver body ps of (ns, out) \<Rightarrow> (p # ns, out)))"

definition notification :: "Dayjs \<Rightarrow> jsnum \<times> callback \<Rightarrow> event" where
  "notification t p = Notified (fst p) (snd p) t t"

text \<open>
  The calls into the engine that a callback makes before it returns or throws.
\<close>

definition calls_made :: "action list \<Rightarrow> action list" where
  "calls_made acts = takeWhile (\<lambda>a. a \<noteq> Throw) acts"

text \<open>
  The state that the calls of the callbacks \<open>cbs\<close>, made one callback after the other,
  leave behind.
\<close>

fun replay :: "behaviour \<Rightarrow> state \<Rightarrow> callback list \<Rightarrow> state" where
  "replay body s [] = s"
| "replay body s (cb # cbs) = replay body (fst (run_body (calls_made (body cb)) s)) cbs"

subsection \<open>Slots only ever empty\<close>

text \<open>
  Between two states of one tick, or across an unsubscribe, a slot list keeps its
  length and each slot either keeps its entry or has been emptied.
\<close>

definition emptied :: "'a slots \<Rightarrow> 'a slots \<Rightarrow> bool" where
  "emptied xs ys = list_all2 (\<lambda>x y. y = x \<or> y = None) xs ys"

definition shrunk :: "state \<Rightarrow> state \<Rightarrow> bool" where
  "shrunk s s' =
     (emptied (subscriptions s) (subscriptions s') \<and> (\<forall>r. emptied (heap s r) (heap s' r)) \<and>
      next_ref s' = next_ref s)"

subsection \<open>Well-formed states\<close>

text \<open>
  The keys of a \<^verbatim>\<open>Map\<close> are pairwise different and so are the members of a \<^verbatim>\<open>Set\<close>;
  every bucket of the map has a \<^verbatim>\<open>Set\<close> object of its own, allocated earlier.  The
  slot lists of the model have these properties in every state the engine can reach.
\<close>

definition well_formed :: "state \<Rightarrow> bool" where
  "well_formed s =
     (distinct (map_keys (subscriptions s)) \<and>
      distinct (map snd (entries (subscriptions s))) \<and>
      list_all (\<lambda>e. snd e < next_ref s) (entries (subscriptions s)) \<and>
      (\<forall>r. distinct (entries (heap s r))))"

subsection \<open>Unsubscribe functions and the buckets they were made for\<close>

text \<open>
  An unsubscribe function is current when the \<^verbatim>\<open>Set\<close> it closes over is the bucket the
  map holds for its interval: it is the function of a subscriber of that bucket.
\<close>

definition current :: "state \<Rightarrow> unsubscribe_fn \<Rightarrow> bool" where
  "current s u = (map_get (subscriptions s) (snd (snd u)) = Some (fst u))"

text \<open>
  What stays true of such a function while buckets are deleted: the map holds its
  interval with its \<^verbatim>\<open>Set\<close> and with no other, and its \<^verbatim>\<open>Set\<close> under no other interval.
\<close>

definition attached :: "state \<Rightarrow> unsubscribe_fn \<Rightarrow> bool" where
  "attached s u =
     list_all (\<lambda>e. (fst e = snd (snd u)) = (snd e = fst u)) (entries (subscriptions s))"

subsection \<open>At most one pending timeout\<close>

text \<open>
  At most one timeout is pending in the registry the engine arms its timeouts in, and
  its handle is the one in \<^verbatim>\<open>#nextTickId\<close>.
\<close>

definition one_timeout :: "state \<Rightarrow> bool" where
  "one_timeout s =
     (case pending (own_timers s) of
        [] \<Rightarrow> True
      | p # ps \<Rightarrow> ps = [] \<and> nextTickId s = Some (fst p))"

subsection \<open>Example states and callbacks\<close>

text \<open>Two subscribers at different intervals: callback 1 at 1000 ms, callback 2 at 5000 ms.\<close>

definition two_intervals :: state where
  "two_intervals =
     engine (run inert [Subscribe 1 (Fin 1000), Subscribe 2 (Fin 5000)] (new_session 0 False))"

text \<open>Callback 1 throws; it shares the bucket of 1000 ms with callback 2, and callback 3
  is in the bucket of 5000 ms.\<close>

definition raiser :: behaviour where
  "raiser cb = (if cb = 1 then [Throw] else [])"

definition three_subscribers :: state where
  "three_subscribers =
     engine (run inert [Subscribe 1 (Fin 1000), Subscribe 2 (Fin 1000), Subscribe 3 (Fin 5000)]
       (new_session 0 False))"

text \<open>Callback 2 throws.\<close>

definition second_raiser :: behaviour where
  "second_raiser cb = (if cb = 2 then [Throw] else [])"

text \<open>Callback 2 unsubscribes itself when it is called; callbacks 1 and 3 return.\<close>

definition leaver :: behaviour where
  "leaver cb = (if cb = 2 then [CallUnsubscribe (0, 2, Fin 1000)] else [])"

text \<open>Callback 1 calls \<^verbatim>\<open>cleanup\<close> and then throws.\<close>

definition closing_raiser :: behaviour where
  "closing_raiser cb = (if cb = 1 then [CallCleanup, Throw] else [])"

text \<open>
  Callback 1 has subscribed at 100 ms and unsubscribed; then callback 2 subscribes at
  50 ms and callback 3 at 100 ms.  The functions returned are, in this order,
  \<open>(0, 1, Fin 100)\<close>, \<open>(1, 2, Fin 50)\<close> and \<open>(2, 3, Fin 100)\<close>.
\<close>

definition stale_session :: session where
  "stale_session =
     run inert [Subscribe 1 (Fin 100), Unsubscribe 0, Subscribe 2 (Fin 50), Subscribe 3 (Fin 100)]
       (new_session 0 False)"

text \<open>
  Callback 2 unsubscribes itself when it is called, and calls the unsubscribe function
  that callback 1 was given.
\<close>

definition stale_caller :: behaviour where
  "stale_caller cb =
     (if cb = 2 then [CallUnsubscribe (1, 2, Fin 50), CallUnsubscribe (0, 1, Fin 100)] else [])"

text \<open>
  As \<open>stale_session\<close>, but callback 1 has subscribed twice at 100 ms and called the first
  of the two functions it was given; the second one has not been called.
\<close>

definition twice_session :: session where
  "twice_session =
     run inert [Subscribe 1 (Fin 100), Subscribe 1 (Fin 100), Unsubscribe 0,
                Subscribe 2 (Fin 50), Subscribe 3 (Fin 100)]
       (new_session 0 False)"

section \<open>Properties of the model\<close>

subsection \<open>Facts about the Map and Set operations\<close>

lemma entries_append [simp]: "entries (xs @ ys) = entries xs @ entries ys"
  by (induction xs rule: entries.induct) simp_all

lemma set_entries: "set (entries xs) = {x. Some x \<in> set xs}"
  by (induction xs rule: entries.induct) auto

lemma set_has_entries: "set_has xs x = (x \<in> set (entries xs))"
  by (simp add: set_has_def set_entries)

lemma entries_set_delete: "entries (set_delete xs x) = remove1 x (entries xs)"
  by (induction xs x rule: set_delete.induct) simp_all

lemma entries_set_add:
  "entries (set_add xs x) = (if x \<in> set (entries xs) then entries xs else entries xs @ [x])"
  by (simp add: set_add_def set_has_entries)

lemma map_get_map_of: "map_get es k = map_of (entries es) k"
  by (induction es k rule: map_get.induct) simp_all

lemma map_get_append_new: "map_get es k = None \<Longrightarrow> map_get (es @ [Some (k, v)]) k = Some v"
  by (induction es k rule: map_get.induct) (simp_all split: if_splits)

lemma map_keys_map_delete: "map_keys (map_delete es k) = remove1 k (map_keys es)"
  by (induction es k rule: map_delete.induct) (simp_all add: map_keys_def)

lemma map_get_None_keys: "(map_get es k = None) = (k \<notin> set (map_keys es))"
  by (induction es k rule: map_get.induct) (auto simp: map_keys_def)

subsection \<open>Slots that are only ever emptied\<close>

lemma emptied_refl [simp]: "emptied xs xs"
  by (simp add: emptied_def list_all2_refl)

lemma emptied_trans:
  assumes "emptied xs ys" and "emptied ys zs"
  shows "emptied xs zs"
  unfolding emptied_def
  by (rule list_all2_trans [OF _ assms [unfolded emptied_def]]) auto

lemma emptied_length: "emptied xs ys \<Longrightarrow> length ys = length xs"
  by (simp add: emptied_def list_all2_lengthD)

lemma emptied_nth: "emptied xs ys \<Longrightarrow> i < length xs \<Longrightarrow> ys ! i = xs ! i \<or> ys ! i = None"
  by (auto simp: emptied_def dest: list_all2_nthD)

lemma emptied_drop: "emptied xs ys \<Longrightarrow> emptied (drop n xs) (drop n ys)"
  by (simp add: emptied_def)

lemma emptied_Cons:
  "emptied (x # xs) (y # ys) = ((y = x \<or> y = None) \<and> emptied xs ys)"
  by (simp add: emptied_def)

lemma emptied_entries_subset: "emptied xs ys \<Longrightarrow> set (entries ys) \<subseteq> set (entries xs)"
  unfolding emptied_def
proof (induction rule: list_all2_induct)
  case Nil
  show ?case by simp
next
  case (Cons x xs y ys)
  then show ?case by (cases x; cases y) auto
qed

lemma emptied_distinct:
  "emptied xs ys \<Longrightarrow> distinct (map f (entries xs)) \<Longrightarrow> distinct (map f (entries ys))"
proof (induction xs arbitrary: ys)
  case Nil
  then show ?case by (simp add: emptied_def)
next
  case (Cons x xs)
  from Cons.prems(1) obtain y ys' where ys: "ys = y # ys'"
    by (cases ys) (auto simp: emptied_def)
  from Cons.prems(1) ys have h: "y = x \<or> y = None" and tl: "emptied xs ys'"
    by (simp_all add: emptied_Cons)
  from Cons.prems(2) have d: "distinct (map f (entries xs))" by (cases x) auto
  note ih = Cons.IH [OF tl d]
  show ?case
  proof (cases y)
    case None
    with ys ih show ?thesis by simp
  next
    case (Some a)
    with h have x: "x = Some a" by simp
    from Cons.prems(2) x have "f a \<notin> f ` set (entries xs)" by simp
    with emptied_entries_subset [OF tl] have "f a \<notin> f ` set (entries ys')" by auto
    with ys Some ih show ?thesis by simp
  qed
qed

lemma emptied_set_delete: "emptied xs (set_delete xs x)"
  by (induction xs x rule: set_delete.induct) (simp_all add: emptied_Cons)

lemma emptied_map_delete: "emptied es (map_delete es k)"
  by (induction es k rule: map_delete.induct) (simp_all add: emptied_Cons)

lemma shrunk_refl: "shrunk s s"
  by (simp add: shrunk_def)

lemma shrunk_trans: "shrunk a b \<Longrightarrow> shrunk b c \<Longrightarrow> shrunk a c"
  by (auto simp: shrunk_def intro: emptied_trans)

lemma next_ref_scheduleNextTick [simp]: "next_ref (scheduleNextTick s) = next_ref s"
  by (simp add: scheduleNextTick_def own_clearTimeout_def own_setTimeout_def with_own_timers_def
      Let_def split: prod.splits)

lemma next_ref_cleanup [simp]: "next_ref (cleanup s) = next_ref s"
  by (simp add: cleanup_def window_clearTimeout_def split: option.splits)

lemma shrunk_unsubscribe: "shrunk s (unsubscribe u s)"
  by (cases u)
    (auto simp: shrunk_def unsubscribe_def Let_def emptied_set_delete emptied_map_delete)

lemma shrunk_cleanup: "shrunk s (cleanup s)"
  by (simp add: shrunk_def)

lemma shrunk_run_body: "run_body acts s = (s', out) \<Longrightarrow> shrunk s s'"
proof (induction acts s rule: run_body.induct)
  case (1 s)
  then show ?case by (simp add: shrunk_refl)
next
  case (2 u rest s)
  then show ?case by (auto intro: shrunk_trans [OF shrunk_unsubscribe])
next
  case (3 rest s)
  then show ?case by (auto intro: shrunk_trans [OF shrunk_cleanup])
next
  case (4 rest s)
  then show ?case by (simp add: shrunk_refl)
qed

lemma shrunk_dispatch_group:
  assumes "dispatch_group body t key r idx s = (s', evs, out)"
  shows "shrunk s s'"
proof (rule dispatch_group_rel [where R = shrunk and body = body, OF _ _ _ assms])
  show "shrunk a a" for a by (rule shrunk_refl)
  show "shrunk a b \<Longrightarrow> shrunk b c \<Longrightarrow> shrunk a c" for a b c by (rule shrunk_trans)
  show "run_body (body cb) a = (b, o') \<Longrightarrow> shrunk a b" for cb a b o' by (rule shrunk_run_body)
qed

lemma shrunk_dispatch_all:
  assumes "dispatch_all body t idx s = (s', evs, out)"
  shows "shrunk s s'"
proof (rule dispatch_all_rel [where R = shrunk and body = body, OF _ _ _ assms])
  show "shrunk a a" for a by (rule shrunk_refl)
  show "shrunk a b \<Longrightarrow> shrunk b c \<Longrightarrow> shrunk a c" for a b c by (rule shrunk_trans)
  show "run_body (body cb) a = (b, o') \<Longrightarrow> shrunk a b" for cb a b o' by (rule shrunk_run_body)
qed

subsection \<open>Every reachable state is well-formed\<close>

lemma well_formed_new: "well_formed (TimeSync_new t0 b)"
  by (simp add: well_formed_def TimeSync_new_def map_keys_def)

lemma well_formed_shrunk:
  assumes "well_formed s" and "shrunk s s'"
  shows "well_formed s'"
proof -
  from assms(2) have e: "emptied (subscriptions s) (subscriptions s')"
    and h: "\<And>r. emptied (heap s r) (heap s' r)" and n: "next_ref s' = next_ref s"
    by (simp_all add: shrunk_def)
  from assms(1) emptied_entries_subset [OF e] n
  have "list_all (\<lambda>e. snd e < next_ref s') (entries (subscriptions s'))"
    by (auto simp: well_formed_def list_all_iff)
  with assms(1) emptied_distinct [OF e, of fst] emptied_distinct [OF e, of snd]
    emptied_distinct [OF h, where f = "\<lambda>x. x"]
  show ?thesis by (simp add: well_formed_def map_keys_def)
qed

lemma well_formed_cleanup: "well_formed s \<Longrightarrow> well_formed (cleanup s)"
  by (erule well_formed_shrunk) (rule shrunk_cleanup)

lemma well_formed_scheduleNextTick [simp]: "well_formed (scheduleNextTick s) = well_formed s"
  by (simp add: well_formed_def)

lemma next_ref_with_own_timers [simp]: "next_ref (with_own_timers reg s) = next_ref s"
  by (simp add: with_own_timers_def)

lemma well_formed_own_clearTimeout [simp]: "well_formed (own_clearTimeout h s) = well_formed s"
  by (simp add: well_formed_def own_clearTimeout_def)

lemma well_formed_latestTime [simp]: "well_formed (s\<lparr>latestTime := t\<rparr>) = well_formed s"
  by (simp add: well_formed_def)

lemma well_formed_unsubscribe: "well_formed s \<Longrightarrow> well_formed (unsubscribe u s)"
  by (erule well_formed_shrunk) (rule shrunk_unsubscribe)

lemma well_formed_subscribe:
  assumes wf: "well_formed s" and sub: "subscribe cb k s = (u, s')"
  shows "well_formed s'"
proof (cases "map_get (subscriptions s) k")
  case (Some r)
  with sub have "s' = s\<lparr>heap := (heap s)(r := set_add (heap s r) cb)\<rparr>"
    by (auto simp: subscribe_def)
  with wf show ?thesis by (simp add: well_formed_def entries_set_add)
next
  case None
  let ?r = "next_ref s"
  from None have nk: "k \<notin> set (map_keys (subscriptions s))" by (simp add: map_get_None_keys)
  from wf have "\<forall>e \<in> set (entries (subscriptions s)). snd e < ?r"
    by (simp add: well_formed_def list_all_iff)
  then have nr: "?r \<notin> snd ` set (entries (subscriptions s))" by auto
  from None sub have
    subs: "subscriptions s' = subscriptions s @ [Some (k, ?r)]" and
    nx: "next_ref s' = Suc ?r" and
    hp: "heap s' = (heap s)(?r := set_add [] cb)"
    by (auto simp: subscribe_def Let_def map_set_def map_has_def)
  from wf nk nr show ?thesis
    unfolding well_formed_def subs nx hp
    by (auto simp: map_keys_def list_all_iff set_add_def set_has_def less_Suc_eq)
qed

lemma well_formed_dispatch_all:
  assumes "dispatch_all body t idx s = (s', evs, out)" and "well_formed s"
  shows "well_formed s'"
  using assms by (auto intro: well_formed_shrunk shrunk_dispatch_all)

lemma well_formed_tick: "well_formed s \<Longrightarrow> tick body t s = (s', evs, out) \<Longrightarrow> well_formed s'"
  unfolding tick_def by (erule well_formed_dispatch_all) simp

lemma well_formed_perform: "well_formed (engine ss) \<Longrightarrow> well_formed (engine (perform body ss c))"
proof (cases c)
  case (Subscribe cb k)
  assume "well_formed (engine ss)"
  with Subscribe show ?thesis by (auto split: prod.splits dest: well_formed_subscribe)
next
  case (Unsubscribe n)
  assume "well_formed (engine ss)"
  with Unsubscribe show ?thesis by (simp add: well_formed_unsubscribe)
next
  case Cleanup
  assume "well_formed (engine ss)"
  with Cleanup show ?thesis by (simp add: well_formed_cleanup)
next
  case (TimerFires h now)
  assume "well_formed (engine ss)"
  then have "well_formed (fst (tick body now (own_clearTimeout (Some h) (engine ss))))"
    by (cases "tick body now (own_clearTimeout (Some h) (engine ss))")
      (auto intro: well_formed_tick [rotated])
  with TimerFires \<open>well_formed (engine ss)\<close> show ?thesis
    by (auto simp: fire_def split: prod.splits)
qed

lemma well_formed_run: "well_formed (engine ss) \<Longrightarrow> well_formed (engine (run body calls ss))"
  unfolding run_def
  by (induction calls arbitrary: ss) (simp_all add: well_formed_perform)

lemma well_formed_reachable: "well_formed (engine (run body calls (new_session t0 b)))"
  by (rule well_formed_run) (simp add: new_session_def well_formed_new)

subsection \<open>The latest time\<close>

lemma latestTime_subscribe: "subscribe cb k s = (u, s') \<Longrightarrow> latestTime s' = latestTime s"
  by (auto simp: subscribe_def Let_def split: option.splits)

lemma latestTime_own_clearTimeout [simp]: "latestTime (own_clearTimeout h s) = latestTime s"
  by (simp add: own_clearTimeout_def)

lemma dispatch_all_latestTime:
  assumes "dispatch_all body t idx s = (s', evs, out)"
  shows "latestTime s' = latestTime s"
  by (rule dispatch_all_rel [where R = "\<lambda>a b. latestTime b = latestTime a", OF _ _ _ assms])
    (auto dest: run_body_latestTime)

lemma latestTime_tick: "latestTime (fst (tick body t s)) = t"
proof -
  obtain s' evs out where "dispatch_all body t 0 (s\<lparr>latestTime := t\<rparr>) = (s', evs, out)"
    by (cases "dispatch_all body t 0 (s\<lparr>latestTime := t\<rparr>)") auto
  from dispatch_all_latestTime [OF this] this show ?thesis by (simp add: tick_def)
qed

lemma perform_quiet_latestTime:
  "\<not> is_timer c \<Longrightarrow> latestTime (engine (perform body ss c)) = latestTime (engine ss)"
proof (cases c)
  case (Subscribe cb k)
  then show ?thesis
    by (auto split: prod.splits dest: latestTime_subscribe)
qed auto

lemma run_quiet_latestTime:
  "latestTime (engine (run body (filter (\<lambda>c. \<not> is_timer c) calls) ss)) = latestTime (engine ss)"
  unfolding run_def
  by (induction calls arbitrary: ss) (simp_all add: perform_quiet_latestTime)

subsection \<open>The trace of a tick whose callbacks do not unsubscribe\<close>

lemma subscribers_from_0: "subscribers_from 0 s = subscribers s"
  by (simp add: subscribers_from_def subscribers_def buckets_def comp_def)

lemma deliver_append:
  "deliver body (ps @ qs) =
     (case deliver body ps of
        (ns, Threw) \<Rightarrow> (ns, Threw)
      | (ns, Returned) \<Rightarrow> (case deliver body qs of (ms, out) \<Rightarrow> (ns @ ms, out)))"
  by (induction ps) (auto split: prod.splits outcome.splits)

lemma deliver_no_throw:
  "\<forall>p \<in> set ps. Throw \<notin> set (body (snd p)) \<Longrightarrow> deliver body ps = (ps, Returned)"
  by (induction ps) auto

lemma deliver_first_throw:
  "\<forall>q \<in> set pre. Throw \<notin> set (body (snd q)) \<Longrightarrow> Throw \<in> set (body (snd p)) \<Longrightarrow>
     deliver body (pre @ p # post) = (pre @ [p], Threw)"
  by (induction pre) auto

lemma run_body_no_unsubscribe:
  "list_all (\<lambda>a. \<not> is_unsubscribe a) acts \<Longrightarrow> run_body acts s = (s', out) \<Longrightarrow>
     heap s' = heap s \<and> subscriptions s' = subscriptions s \<and> (out = Threw) = (Throw \<in> set acts)"
proof (induction acts s rule: run_body.induct)
  case (1 s)
  then show ?case by auto
next
  case (2 u rest s)
  then show ?case by simp
next
  case (3 rest s)
  then show ?case by auto
next
  case (4 rest s)
  then show ?case by auto
qed

lemma dispatch_group_no_unsubscribe:
  assumes calm: "\<And>cb. list_all (\<lambda>a. \<not> is_unsubscribe a) (body cb)"
  shows "dispatch_group body t key r idx s = (s', evs, out) \<Longrightarrow>
     heap s' = heap s \<and> subscriptions s' = subscriptions s \<and>
     deliver body (map (Pair key) (entries (drop idx (heap s r)))) = (map ev_subscriber evs, out)"
proof (induction idx s arbitrary: s' evs out rule: dispatch_group_induct [where body = body and r = r])
  case (finished idx s)
  then show ?case by (simp add: dispatch_group_done)
next
  case (skip idx s)
  from skip(1,2) have dr: "drop idx (heap s r) = None # drop (Suc idx) (heap s r)"
    by (metis Cons_nth_drop_Suc)
  from skip.prems have "dispatch_group body t key r (Suc idx) s = (s', evs, out)"
    by (simp add: dispatch_group_skip [OF skip(1,2)])
  from skip.IH [OF this] show ?case by (simp add: dr)
next
  case (call idx s cb s1 o1)
  from call(1,2) have dr: "drop idx (heap s r) = Some cb # drop (Suc idx) (heap s r)"
    by (metis Cons_nth_drop_Suc)
  from run_body_no_unsubscribe [OF calm call(3)]
  have rb: "heap s1 = heap s" "subscriptions s1 = subscriptions s"
    "(o1 = Threw) = (Throw \<in> set (body cb))"
    by simp_all
  show ?case
  proof (cases o1)
    case Threw
    with dispatch_group_threw [OF call(1,2), of body s1 t key] call(3) call.prems
    have "s' = s1" "evs = [Notified key cb t (getValue s)]" "out = Threw"
      by simp_all
    with rb Threw dr show ?thesis by (simp add: ev_subscriber_def)
  next
    case Returned
    obtain s2 evs2 o2 where dg: "dispatch_group body t key r (Suc idx) s1 = (s2, evs2, o2)"
      by (cases "dispatch_group body t key r (Suc idx) s1") auto
    from dispatch_group_returned [OF call(1,2) call(3) [unfolded Returned] dg] call.prems
    have eq: "s' = s2" "evs = Notified key cb t (getValue s) # evs2" "out = o2"
      by simp_all
    from call.IH [OF Returned dg] rb
    have ih: "heap s2 = heap s" "subscriptions s2 = subscriptions s"
      "deliver body (map (Pair key) (entries (drop (Suc idx) (heap s r)))) = (map ev_subscriber evs2, o2)"
      by simp_all
    from rb(3) Returned have nt: "Throw \<notin> set (body cb)" by simp
    show ?thesis
      unfolding eq dr using ih nt by (simp add: ev_subscriber_def)
  qed
qed

lemma dispatch_all_no_unsubscribe:
  assumes calm: "\<And>cb. list_all (\<lambda>a. \<not> is_unsubscribe a) (body cb)"
  shows "dispatch_all body t idx s = (s', evs, out) \<Longrightarrow>
     heap s' = heap s \<and> subscriptions s' = subscriptions s \<and>
     deliver body (subscribers_from idx s) = (map ev_subscriber evs, out)"
proof (induction idx s arbitrary: s' evs out rule: dispatch_all_induct [where body = body and t = t])
  case (finished idx s)
  then show ?case by (simp add: dispatch_all_done subscribers_from_def)
next
  case (skip idx s)
  from skip(1,2) have dr: "drop idx (subscriptions s) = None # drop (Suc idx) (subscriptions s)"
    by (metis Cons_nth_drop_Suc)
  from skip.prems have "dispatch_all body t (Suc idx) s = (s', evs, out)"
    by (simp add: dispatch_all_skip [OF skip(1,2)])
  from skip.IH [OF this] show ?case by (simp add: dr subscribers_from_def)
next
  case (bucket idx s key r s1 evs1 o1)
  from bucket(1,2) have dr: "drop idx (subscriptions s) = Some (key, r) # drop (Suc idx) (subscriptions s)"
    by (metis Cons_nth_drop_Suc)
  from dispatch_group_no_unsubscribe [OF calm bucket(3)]
  have g: "heap s1 = heap s" "subscriptions s1 = subscriptions s"
    "deliver body (map (Pair key) (entries (heap s r))) = (map ev_subscriber evs1, o1)"
    by simp_all
  have sf: "subscribers_from idx s = map (Pair key) (entries (heap s r)) @ subscribers_from (Suc idx) s"
    by (simp add: subscribers_from_def dr)
  show ?case
  proof (cases o1)
    case Threw
    with dispatch_all_threw [OF bucket(1,2), of body t s1 evs1] bucket(3) bucket.prems
    have eq: "s' = s1" "evs = evs1" "out = Threw"
      by simp_all
    show ?thesis
      unfolding eq sf deliver_append using g Threw by simp
  next
    case Returned
    obtain s2 evs2 o2 where da: "dispatch_all body t (Suc idx) s1 = (s2, evs2, o2)"
      by (cases "dispatch_all body t (Suc idx) s1") auto
    from dispatch_all_returned [OF bucket(1,2) bucket(3) [unfolded Returned] da] bucket.prems
    have eq: "s' = s2" "evs = evs1 @ evs2" "out = o2"
      by simp_all
    from bucket.IH [OF Returned da] g
    have ih: "heap s2 = heap s" "subscriptions s2 = subscriptions s"
      "deliver body (subscribers_from (Suc idx) s) = (map ev_subscriber evs2, o2)"
      by (simp_all add: subscribers_from_def)
    show ?thesis
      unfolding eq sf deliver_append using g ih Returned by simp
  qed
qed

lemma dispatch_group_events:
  "dispatch_group body t key r idx s = (s', evs, out) \<Longrightarrow>
     latestTime s' = latestTime s \<and>
     list_all (\<lambda>ev. ev_key ev = key \<and> ev_arg ev = t \<and> ev_seen ev = latestTime s) evs"
proof (induction idx s arbitrary: s' evs out rule: dispatch_group_induct [where body = body and r = r])
  case (finished idx s)
  then show ?case by (simp add: dispatch_group_done)
next
  case (skip idx s)
  from skip.prems have "dispatch_group body t key r (Suc idx) s = (s', evs, out)"
    by (simp add: dispatch_group_skip [OF skip(1,2)])
  from skip.IH [OF this] show ?case .
next
  case (call idx s cb s1 o1)
  note lt = run_body_latestTime [OF call(3)]
  show ?case
  proof (cases o1)
    case Threw
    with dispatch_group_threw [OF call(1,2), of body s1 t key] call(3) call.prems lt
    show ?thesis by (auto simp: getValue_def)
  next
    case Returned
    obtain s2 evs2 o2 where dg: "dispatch_group body t key r (Suc idx) s1 = (s2, evs2, o2)"
      by (cases "dispatch_group body t key r (Suc idx) s1") auto
    from dispatch_group_returned [OF call(1,2) call(3) [unfolded Returned] dg] call.prems
    have eq: "s' = s2" "evs = Notified key cb t (getValue s) # evs2" "out = o2"
      by simp_all
    from call.IH [OF Returned dg] lt show ?thesis
      unfolding eq by (simp add: getValue_def)
  qed
qed

lemma dispatch_all_events:
  "dispatch_all body t idx s = (s', evs, out) \<Longrightarrow>
     latestTime s' = latestTime s \<and>
     list_all (\<lambda>ev. ev_arg ev = t \<and> ev_seen ev = latestTime s) evs"
proof (induction idx s arbitrary: s' evs out rule: dispatch_all_induct [where body = body and t = t])
  case (finished idx s)
  then show ?case by (simp add: dispatch_all_done)
next
  case (skip idx s)
  from skip.prems have "dispatch_all body t (Suc idx) s = (s', evs, out)"
    by (simp add: dispatch_all_skip [OF skip(1,2)])
  from skip.IH [OF this] show ?case .
next
  case (bucket idx s key r s1 evs1 o1)
  from dispatch_group_events [OF bucket(3)]
  have g: "latestTime s1 = latestTime s"
    "list_all (\<lambda>ev. ev_arg ev = t \<and> ev_seen ev = latestTime s) evs1"
    by (simp_all add: list_all_iff)
  show ?case
  proof (cases o1)
    case Threw
    with dispatch_all_threw [OF bucket(1,2), of body t s1 evs1] bucket(3) bucket.prems g
    show ?thesis by auto
  next
    case Returned
    obtain s2 evs2 o2 where da: "dispatch_all body t (Suc idx) s1 = (s2, evs2, o2)"
      by (cases "dispatch_all body t (Suc idx) s1") auto
    from dispatch_all_returned [OF bucket(1,2) bucket(3) [unfolded Returned] da] bucket.prems
    have eq: "s' = s2" "evs = evs1 @ evs2" "out = o2"
      by simp_all
    from bucket.IH [OF Returned da] g show ?thesis
      unfolding eq by simp
  qed
qed

lemma events_rebuilt:
  "list_all (\<lambda>ev. ev_arg ev = t \<and> ev_seen ev = t) evs \<Longrightarrow>
     evs = map (notification t) (map ev_subscriber evs)"
proof (induction evs)
  case Nil
  show ?case by simp
next
  case (Cons ev evs)
  then show ?case by (cases ev) (simp add: notification_def ev_subscriber_def)
qed

lemma tick_events:
  "list_all (\<lambda>ev. ev_arg ev = t \<and> ev_seen ev = t) (fst (snd (tick body t s)))"
proof -
  obtain s' evs out where da: "dispatch_all body t 0 (s\<lparr>latestTime := t\<rparr>) = (s', evs, out)"
    by (cases "dispatch_all body t 0 (s\<lparr>latestTime := t\<rparr>)") auto
  from dispatch_all_events [OF da] da show ?thesis by (simp add: tick_def)
qed

lemma tick_no_unsubscribe:
  assumes calm: "\<And>cb. list_all (\<lambda>a. \<not> is_unsubscribe a) (body cb)"
    and tk: "tick body t s = (s', evs, out)"
  shows "heap s' = heap s" and "subscriptions s' = subscriptions s"
    and "evs = map (notification t) (fst (deliver body (subscribers s)))"
    and "out = snd (deliver body (subscribers s))"
proof -
  from tk have da: "dispatch_all body t 0 (s\<lparr>latestTime := t\<rparr>) = (s', evs, out)"
    by (simp add: tick_def)
  have sub: "subscribers_from 0 (s\<lparr>latestTime := t\<rparr>) = subscribers s"
    by (simp add: subscribers_from_0 subscribers_def buckets_def)
  from dispatch_all_no_unsubscribe [OF calm da] sub
  have d: "heap s' = heap s" "subscriptions s' = subscriptions s"
    "deliver body (subscribers s) = (map ev_subscriber evs, out)"
    by simp_all
  from d show "heap s' = heap s" and "subscriptions s' = subscriptions s" by simp_all
  from tick_events [of t body s] tk
  have "list_all (\<lambda>ev. ev_arg ev = t \<and> ev_seen ev = t) evs" by simp
  then have "evs = map (notification t) (map ev_subscriber evs)"
    by (rule events_rebuilt)
  with d(3) show "evs = map (notification t) (fst (deliver body (subscribers s)))" by simp
  from d(3) show "out = snd (deliver body (subscribers s))" by simp
qed

lemma run_body_throw_only:
  "list_all (\<lambda>a. \<not> is_unsubscribe a) acts \<Longrightarrow> CallCleanup \<notin> set acts \<Longrightarrow>
     run_body acts s = (s', out) \<Longrightarrow> s' = s"
  by (induction acts s rule: run_body.induct) auto

subsection \<open>Subscribers of a well-formed state\<close>

lemma distinct_tagged_concat:
  "distinct (map fst es) \<Longrightarrow> (\<And>e. e \<in> set es \<Longrightarrow> distinct (f e)) \<Longrightarrow>
     distinct (concat (map (\<lambda>e. map (Pair (fst e)) (f e)) es))"
proof (induction es)
  case Nil
  show ?case by simp
next
  case (Cons e es)
  from Cons.prems have "distinct (map (Pair (fst e)) (f e))"
    by (simp add: distinct_map inj_on_def)
  moreover from Cons have "distinct (concat (map (\<lambda>e. map (Pair (fst e)) (f e)) es))"
    by simp
  moreover from Cons.prems(1)
  have "set (map (Pair (fst e)) (f e)) \<inter> set (concat (map (\<lambda>e. map (Pair (fst e)) (f e)) es)) = {}"
    by (auto simp: image_iff)
  ultimately show ?case by simp
qed

lemma distinct_subscribers: "well_formed s \<Longrightarrow> distinct (subscribers s)"
  unfolding subscribers_def buckets_def well_formed_def map_keys_def
  using distinct_tagged_concat [of "entries (subscriptions s)" "\<lambda>e. entries (heap s (snd e))"]
  by (simp add: comp_def)

lemma subscribers_iff:
  "((k, cb) \<in> set (subscribers s)) =
     (\<exists>r. (k, r) \<in> set (entries (subscriptions s)) \<and> cb \<in> set (entries (heap s r)))"
  by (auto simp: subscribers_def buckets_def image_iff) force

lemma subscribers_map_get:
  assumes "well_formed s"
  shows "((k, cb) \<in> set (subscribers s)) =
     (case map_get (subscriptions s) k of None \<Rightarrow> False | Some r \<Rightarrow> cb \<in> set (entries (heap s r)))"
proof -
  from assms have d: "distinct (map fst (entries (subscriptions s)))"
    by (simp add: well_formed_def map_keys_def)
  show ?thesis
    by (auto simp: subscribers_iff map_get_map_of map_of_eq_Some_iff [OF d]
        split: option.splits dest: map_of_SomeD weak_map_of_SomeI eq_key_imp_eq_value [OF d])
qed

lemma count_list_distinct: "distinct xs \<Longrightarrow> count_list xs x = (if x \<in> set xs then 1 else 0)"
  by (induction xs) auto

lemma subscribe_result:
  assumes "subscribe cb k s = (u, s1)"
  shows "u = (fst u, cb, k)" and "map_get (subscriptions s1) k = Some (fst u)"
    and "cb \<in> set (entries (heap s1 (fst u)))"
  using assms
  by (auto simp: subscribe_def Let_def entries_set_add map_set_def map_has_def map_get_append_new
      split: option.splits)

lemma subscribe_again:
  assumes "subscribe cb k s = (u, s1)"
  shows "subscribe cb k s1 = (u, s1)"
proof -
  note r = subscribe_result [OF assms]
  obtain ref where u: "u = (ref, cb, k)" using r(1) by (cases u) auto
  from r(3) u have "set_add (heap s1 ref) cb = heap s1 ref"
    by (simp add: set_add_def set_has_entries)
  with r(2) u show ?thesis by (simp add: subscribe_def)
qed

lemma unsubscribe_removes:
  assumes wf: "well_formed s" and g: "map_get (subscriptions s) k = Some r"
  shows "(k, cb) \<notin> set (subscribers (unsubscribe (r, cb, k) s))"
proof -
  have wf': "well_formed (unsubscribe (r, cb, k) s)"
    using wf by (rule well_formed_unsubscribe)
  from wf have d: "distinct (entries (heap s r))" by (simp add: well_formed_def)
  then have gone: "cb \<notin> set (entries (set_delete (heap s r) cb))"
    by (simp add: entries_set_delete)
  from wf have dk: "distinct (map_keys (subscriptions s))" by (simp add: well_formed_def)
  have del: "map_get (map_delete (subscriptions s) k) k = None"
    using dk by (simp add: map_get_None_keys map_keys_map_delete)
  show ?thesis
    using g gone del
    by (simp add: subscribers_map_get [OF wf'] heap_unsubscribe subscriptions_unsubscribe
        split: option.splits)
qed

subsection \<open>Callbacks that unsubscribe during a tick\<close>

lemma shrunk_heap: "shrunk s s' \<Longrightarrow> emptied (heap s r) (heap s' r)"
  by (simp add: shrunk_def)

lemma shrunk_subscriptions: "shrunk s s' \<Longrightarrow> emptied (subscriptions s) (subscriptions s')"
  by (simp add: shrunk_def)

lemma emptied_drop_head:
  assumes "emptied xs ys" and "idx < length xs"
  shows "drop idx ys = xs ! idx # drop (Suc idx) ys \<or> drop idx ys = None # drop (Suc idx) ys"
proof -
  from assms have "idx < length ys" by (simp add: emptied_length)
  then have "drop idx ys = ys ! idx # drop (Suc idx) ys" by (metis Cons_nth_drop_Suc)
  with emptied_nth [OF assms] show ?thesis by auto
qed

lemma dispatch_group_each_once:
  "dispatch_group body t key r idx s = (s', evs, out) \<Longrightarrow>
   distinct (entries (drop idx (heap s r))) \<Longrightarrow>
     distinct (map ev_callback evs) \<and>
     set (map ev_callback evs) \<subseteq> set (entries (drop idx (heap s r))) \<and>
     (out = Returned \<longrightarrow> set (entries (drop idx (heap s' r))) \<subseteq> set (map ev_callback evs))"
proof (induction idx s arbitrary: s' evs out rule: dispatch_group_induct [where body = body and r = r])
  case (finished idx s)
  then show ?case by (simp add: dispatch_group_done)
next
  case (skip idx s)
  from skip(1,2) have dr: "drop idx (heap s r) = None # drop (Suc idx) (heap s r)"
    by (metis Cons_nth_drop_Suc)
  from skip.prems(1) have dg: "dispatch_group body t key r (Suc idx) s = (s', evs, out)"
    by (simp add: dispatch_group_skip [OF skip(1,2)])
  from skip.prems(2) dr have "distinct (entries (drop (Suc idx) (heap s r)))" by simp
  note ih = skip.IH [OF dg this]
  from emptied_drop_head [OF shrunk_heap [OF shrunk_dispatch_group [OF skip.prems(1)]] skip(1)] skip(2)
  have "drop idx (heap s' r) = None # drop (Suc idx) (heap s' r)" by auto
  with ih dr show ?case by simp
next
  case (call idx s cb s1 o1)
  from call(1,2) have dr: "drop idx (heap s r) = Some cb # drop (Suc idx) (heap s r)"
    by (metis Cons_nth_drop_Suc)
  with call.prems(2) have fresh: "cb \<notin> set (entries (drop (Suc idx) (heap s r)))"
    and d: "distinct (entries (drop (Suc idx) (heap s r)))"
    by simp_all
  show ?case
  proof (cases o1)
    case Threw
    with dispatch_group_threw [OF call(1,2), of body s1 t key] call(3) call.prems(1)
    have "evs = [Notified key cb t (getValue s)]" "out = Threw" by simp_all
    with dr show ?thesis by simp
  next
    case Returned
    obtain s2 evs2 o2 where dg: "dispatch_group body t key r (Suc idx) s1 = (s2, evs2, o2)"
      by (cases "dispatch_group body t key r (Suc idx) s1") auto
    from dispatch_group_returned [OF call(1,2) call(3) [unfolded Returned] dg] call.prems(1)
    have eq: "s' = s2" "evs = Notified key cb t (getValue s) # evs2" "out = o2"
      by simp_all
    have e1: "emptied (drop (Suc idx) (heap s r)) (drop (Suc idx) (heap s1 r))"
      by (rule emptied_drop [OF shrunk_heap [OF shrunk_run_body [OF call(3)]]])
    from emptied_distinct [OF e1, of "\<lambda>x. x"] d
    have d1: "distinct (entries (drop (Suc idx) (heap s1 r)))" by simp
    from call.IH [OF Returned dg d1]
    have ih: "distinct (map ev_callback evs2)"
      "set (map ev_callback evs2) \<subseteq> set (entries (drop (Suc idx) (heap s1 r)))"
      "o2 = Returned \<longrightarrow> set (entries (drop (Suc idx) (heap s2 r))) \<subseteq> set (map ev_callback evs2)"
      by simp_all
    from ih(2) emptied_entries_subset [OF e1]
    have sub: "set (map ev_callback evs2) \<subseteq> set (entries (drop (Suc idx) (heap s r)))" by blast
    from emptied_drop_head [OF shrunk_heap [OF shrunk_dispatch_group [OF call.prems(1)]] call(1)]
      call(2) eq(1)
    have "set (entries (drop idx (heap s2 r))) \<subseteq> insert cb (set (entries (drop (Suc idx) (heap s2 r))))"
      by auto
    with ih(3) have cov: "o2 = Returned \<longrightarrow>
        set (entries (drop idx (heap s2 r))) \<subseteq> insert cb (set (map ev_callback evs2))"
      by blast
    from ih(1) sub fresh cov show ?thesis
      unfolding eq dr by auto
  qed
qed

lemma set_subscribers_from:
  "set (subscribers_from idx s) =
     {(k, c). \<exists>r. Some (k, r) \<in> set (drop idx (subscriptions s)) \<and> Some c \<in> set (heap s r)}"
  by (auto simp: subscribers_from_def set_entries image_iff)

lemma subscribers_from_shrunk:
  assumes "shrunk s s'"
  shows "set (subscribers_from idx s') \<subseteq> set (subscribers_from idx s)"
proof -
  have a: "Some e \<in> set (drop idx (subscriptions s))" if "Some e \<in> set (drop idx (subscriptions s'))" for e
    using emptied_entries_subset [OF emptied_drop [OF shrunk_subscriptions [OF assms], of idx]] that
    by (auto simp: set_entries)
  have b: "Some c \<in> set (heap s r)" if "Some c \<in> set (heap s' r)" for c r
    using emptied_entries_subset [OF shrunk_heap [OF assms, of r]] that
    by (auto simp: set_entries)
  show ?thesis
    by (auto simp: set_subscribers_from dest: a b)
qed

lemma subscribers_from_keys:
  "p \<in> set (subscribers_from idx s) \<Longrightarrow> fst p \<in> set (map_keys (drop idx (subscriptions s)))"
  by (cases p) (auto simp: set_subscribers_from map_keys_def set_entries image_iff intro: bexI [where x = "(a, b)" for a b])

lemma subscribers_from_Cons:
  "drop idx (subscriptions s) = Some (key, r) # drop (Suc idx) (subscriptions s) \<Longrightarrow>
     subscribers_from idx s = map (Pair key) (entries (heap s r)) @ subscribers_from (Suc idx) s"
  by (simp add: subscribers_from_def)

lemma subscribers_from_None:
  "drop idx (subscriptions s) = None # drop (Suc idx) (subscriptions s) \<Longrightarrow>
     subscribers_from idx s = subscribers_from (Suc idx) s"
  by (simp add: subscribers_from_def)

lemma dispatch_all_each_once:
  "dispatch_all body t idx s = (s', evs, out) \<Longrightarrow>
   distinct (map_keys (drop idx (subscriptions s))) \<Longrightarrow>
   (\<And>r. distinct (entries (heap s r))) \<Longrightarrow>
     distinct (map ev_subscriber evs) \<and>
     set (map ev_subscriber evs) \<subseteq> set (subscribers_from idx s) \<and>
     (out = Returned \<longrightarrow> set (subscribers_from idx s') \<subseteq> set (map ev_subscriber evs))"
proof (induction idx s arbitrary: s' evs out rule: dispatch_all_induct [where body = body and t = t])
  case (finished idx s)
  then show ?case by (simp add: dispatch_all_done subscribers_from_def)
next
  case (skip idx s)
  from skip(1,2) have dr: "drop idx (subscriptions s) = None # drop (Suc idx) (subscriptions s)"
    by (metis Cons_nth_drop_Suc)
  from skip.prems(1) have da: "dispatch_all body t (Suc idx) s = (s', evs, out)"
    by (simp add: dispatch_all_skip [OF skip(1,2)])
  from skip.prems(2) dr have "distinct (map_keys (drop (Suc idx) (subscriptions s)))"
    by (simp add: map_keys_def)
  note ih = skip.IH [OF da this skip.prems(3)]
  from emptied_drop_head [OF shrunk_subscriptions [OF shrunk_dispatch_all [OF skip.prems(1)]] skip(1)]
    skip(2)
  have "drop idx (subscriptions s') = None # drop (Suc idx) (subscriptions s')" by auto
  with ih show ?case by (simp add: subscribers_from_None dr)
next
  case (bucket idx s key r s1 evs1 o1)
  from bucket(1,2)
  have dr: "drop idx (subscriptions s) = Some (key, r) # drop (Suc idx) (subscriptions s)"
    by (metis Cons_nth_drop_Suc)
  note sf = subscribers_from_Cons [OF dr]
  from bucket.prems(2) dr
  have nk: "key \<notin> set (map_keys (drop (Suc idx) (subscriptions s)))"
    and dk: "distinct (map_keys (drop (Suc idx) (subscriptions s)))"
    by (simp_all add: map_keys_def)
  from dispatch_group_each_once [OF bucket(3)] bucket.prems(3) [of r]
  have g: "distinct (map ev_callback evs1)"
    "set (map ev_callback evs1) \<subseteq> set (entries (heap s r))"
    "o1 = Returned \<longrightarrow> set (entries (heap s1 r)) \<subseteq> set (map ev_callback evs1)"
    by simp_all
  from dispatch_group_events [OF bucket(3)]
  have p1: "map ev_subscriber evs1 = map (Pair key) (map ev_callback evs1)"
    by (auto simp: list_all_iff ev_subscriber_def)
  from g(1) have d1: "distinct (map ev_subscriber evs1)"
    unfolding p1 by (simp add: distinct_map inj_on_def)
  from g(2) have s1: "set (map ev_subscriber evs1) \<subseteq> set (map (Pair key) (entries (heap s r)))"
    unfolding p1 by auto
  note sh1 = shrunk_dispatch_group [OF bucket(3)]
  show ?case
  proof (cases o1)
    case Threw
    with dispatch_all_threw [OF bucket(1,2), of body t s1 evs1] bucket(3) bucket.prems(1)
    have "evs = evs1" "out = Threw" by simp_all
    with d1 s1 show ?thesis by (auto simp: sf)
  next
    case Returned
    obtain s2 evs2 o2 where da: "dispatch_all body t (Suc idx) s1 = (s2, evs2, o2)"
      by (cases "dispatch_all body t (Suc idx) s1") auto
    from dispatch_all_returned [OF bucket(1,2) bucket(3) [unfolded Returned] da] bucket.prems(1)
    have eq: "s' = s2" "evs = evs1 @ evs2" "out = o2"
      by simp_all
    from emptied_distinct [OF emptied_drop [OF shrunk_subscriptions [OF sh1]], of fst "Suc idx"] dk
    have dk1: "distinct (map_keys (drop (Suc idx) (subscriptions s1)))"
      by (simp add: map_keys_def)
    have dh1: "distinct (entries (heap s1 r'))" for r'
      using emptied_distinct [OF shrunk_heap [OF sh1, of r'], of "\<lambda>x. x"] bucket.prems(3) [of r']
      by simp
    from bucket.IH [OF Returned da dk1 dh1]
    have ih: "distinct (map ev_subscriber evs2)"
      "set (map ev_subscriber evs2) \<subseteq> set (subscribers_from (Suc idx) s1)"
      "o2 = Returned \<longrightarrow> set (subscribers_from (Suc idx) s2) \<subseteq> set (map ev_subscriber evs2)"
      by simp_all
    from ih(2) subscribers_from_shrunk [OF sh1, of "Suc idx"]
    have s2: "set (map ev_subscriber evs2) \<subseteq> set (subscribers_from (Suc idx) s)" by blast
    have disj: "set (map ev_subscriber evs1) \<inter> set (map ev_subscriber evs2) = {}"
    proof -
      have "fst p = key" if "p \<in> set (map ev_subscriber evs1)" for p
        using that s1 by auto
      moreover have "fst p \<noteq> key" if "p \<in> set (map ev_subscriber evs2)" for p
        using that s2 subscribers_from_keys [of p "Suc idx" s] nk by auto
      ultimately show ?thesis by blast
    qed
    have cov: "set (subscribers_from idx s2) \<subseteq> set (map ev_subscriber (evs1 @ evs2))"
      if o2: "o2 = Returned"
    proof -
      from shrunk_dispatch_all [OF bucket.prems(1)] eq(1) have sh: "shrunk s s2" by simp
      from emptied_entries_subset [OF shrunk_heap [OF shrunk_dispatch_all [OF da], of r]] g(3) Returned
      have in1: "set (map (Pair key) (entries (heap s2 r))) \<subseteq> set (map ev_subscriber evs1)"
        unfolding p1 by auto
      from emptied_drop_head [OF shrunk_subscriptions [OF sh] bucket(1)] bucket(2)
      have "drop idx (subscriptions s2) = Some (key, r) # drop (Suc idx) (subscriptions s2) \<or>
            drop idx (subscriptions s2) = None # drop (Suc idx) (subscriptions s2)"
        by simp
      then show ?thesis
      proof
        assume "drop idx (subscriptions s2) = Some (key, r) # drop (Suc idx) (subscriptions s2)"
        from subscribers_from_Cons [OF this] in1 ih(3) o2 show ?thesis by auto
      next
        assume "drop idx (subscriptions s2) = None # drop (Suc idx) (subscriptions s2)"
        from subscribers_from_None [OF this] ih(3) o2 show ?thesis by auto
      qed
    qed
    from d1 ih(1) disj s1 s2 cov show ?thesis
      unfolding eq by (auto simp: sf)
  qed
qed

lemma current_attached:
  assumes wf: "well_formed s" and cur: "current s u"
  shows "attached s u"
proof -
  obtain r c k where u: "u = (r, c, k)" by (cases u)
  from wf have dk: "distinct (map fst (entries (subscriptions s)))"
    and dr: "distinct (map snd (entries (subscriptions s)))"
    by (simp_all add: well_formed_def map_keys_def)
  from cur u have m: "(k, r) \<in> set (entries (subscriptions s))"
    by (auto simp: current_def map_get_map_of dest: map_of_SomeD)
  have "(fst e = k) = (snd e = r)" if e: "e \<in> set (entries (subscriptions s))" for e
  proof
    assume "fst e = k"
    with e have "(k, snd e) \<in> set (entries (subscriptions s))" by (cases e) auto
    from eq_key_imp_eq_value [OF dk this m] show "snd e = r" .
  next
    assume r: "snd e = r"
    from dr have inj: "inj_on snd (set (entries (subscriptions s)))"
      by (simp add: distinct_map)
    from inj_onD [OF inj _ e m] r have "e = (k, r)" by simp
    then show "fst e = k" by simp
  qed
  with u show ?thesis by (simp add: attached_def list_all_iff)
qed

lemma attached_shrunk: "attached s u \<Longrightarrow> shrunk s s' \<Longrightarrow> attached s' u"
  using emptied_entries_subset [OF shrunk_subscriptions, of s s']
  by (auto simp: attached_def list_all_iff)

lemma entries_map_delete_others:
  "e \<in> set (entries es) \<Longrightarrow> fst e \<noteq> k \<Longrightarrow> e \<in> set (entries (map_delete es k))"
  by (induction es k rule: map_delete.induct) auto

lemma unsubscribe_keeps_others:
  assumes att: "attached s (r, c, k)"
    and mem: "(k0, c0) \<in> set (subscribers s)"
    and other: "(k0, c0) \<noteq> (k, c)"
  shows "(k0, c0) \<in> set (subscribers (unsubscribe (r, c, k) s))"
proof -
  from mem obtain r0 where e: "(k0, r0) \<in> set (entries (subscriptions s))"
    and c0: "c0 \<in> set (entries (heap s r0))"
    by (auto simp: subscribers_iff)
  from att e have kr: "(k0 = k) = (r0 = r)"
    by (auto simp: attached_def list_all_iff)
  show ?thesis
  proof (cases "r0 = r")
    case True
    with kr other have "c0 \<noteq> c" by simp
    with c0 True have in': "c0 \<in> set (entries (set_delete (heap s r) c))"
      by (simp add: entries_set_delete)
    then have "set_size (set_delete (heap s r) c) \<noteq> 0"
      by (auto simp: set_size_def)
    with e in' True show ?thesis
      by (auto simp: subscribers_iff heap_unsubscribe subscriptions_unsubscribe)
  next
    case False
    with kr have "k0 \<noteq> k" by simp
    with e have "(k0, r0) \<in> set (entries (map_delete (subscriptions s) k))"
      by (auto intro: entries_map_delete_others)
    with e c0 False show ?thesis
      by (auto simp: subscribers_iff heap_unsubscribe subscriptions_unsubscribe)
  qed
qed

lemma subscribers_cleanup [simp]: "subscribers (cleanup s) = subscribers s"
  by (simp add: subscribers_def buckets_def)

lemma run_body_keeps_untargeted:
  "\<forall>u. CallUnsubscribe u \<in> set acts \<longrightarrow> attached s u \<Longrightarrow>
   \<forall>r. CallUnsubscribe (r, c0, k0) \<notin> set acts \<Longrightarrow>
   (k0, c0) \<in> set (subscribers s) \<Longrightarrow> run_body acts s = (s', out) \<Longrightarrow>
     (k0, c0) \<in> set (subscribers s')"
proof (induction acts s rule: run_body.induct)
  case (1 s)
  then show ?case by simp
next
  case (2 u rest s)
  obtain r c k where u: "u = (r, c, k)" by (cases u)
  from "2.prems"(2) u have ne: "(k0, c0) \<noteq> (k, c)" by auto
  from "2.prems"(1) u have "attached s (r, c, k)" by simp
  from unsubscribe_keeps_others [OF this "2.prems"(3) ne] u
  have m: "(k0, c0) \<in> set (subscribers (unsubscribe u s))" by simp
  have a: "\<forall>v. CallUnsubscribe v \<in> set rest \<longrightarrow> attached (unsubscribe u s) v"
    using "2.prems"(1) by (auto intro: attached_shrunk shrunk_unsubscribe)
  from "2.prems"(2) have t: "\<forall>r. CallUnsubscribe (r, c0, k0) \<notin> set rest" by simp
  from "2.IH" [OF a t m] "2.prems"(4) show ?case by simp
next
  case (3 rest s)
  have a: "\<forall>v. CallUnsubscribe v \<in> set rest \<longrightarrow> attached (cleanup s) v"
    using "3.prems"(1) by (auto intro: attached_shrunk shrunk_cleanup)
  from "3.prems"(2) have t: "\<forall>r. CallUnsubscribe (r, c0, k0) \<notin> set rest" by simp
  from "3.IH" [OF a t] "3.prems"(3,4) show ?case by simp
next
  case (4 rest s)
  then show ?case by simp
qed

lemma dispatch_all_keeps_untargeted:
  assumes da: "dispatch_all body t idx s = (s', evs, out)"
    and att: "\<forall>cb u. CallUnsubscribe u \<in> set (body cb) \<longrightarrow> attached s u"
    and unt: "\<forall>cb r. CallUnsubscribe (r, c0, k0) \<notin> set (body cb)"
    and mem: "(k0, c0) \<in> set (subscribers s)"
  shows "(k0, c0) \<in> set (subscribers s')"
proof -
  let ?A = "\<lambda>a. (\<forall>cb u. CallUnsubscribe u \<in> set (body cb) \<longrightarrow> attached a u) \<and>
               (k0, c0) \<in> set (subscribers a)"
  have "?A s \<longrightarrow> ?A s'"
  proof (rule dispatch_all_rel [where R = "\<lambda>a b. ?A a \<longrightarrow> ?A b" and body = body, OF _ _ _ da])
    show "?A a \<longrightarrow> ?A a" for a by simp
    show "?A a \<longrightarrow> ?A b \<Longrightarrow> ?A b \<longrightarrow> ?A c \<Longrightarrow> ?A a \<longrightarrow> ?A c" for a b c by blast
    show "?A a \<longrightarrow> ?A b" if rb: "run_body (body cb) a = (b, o')" for cb a b o'
    proof
      assume A: "?A a"
      then have "\<forall>u. CallUnsubscribe u \<in> set (body cb) \<longrightarrow> attached a u" by blast
      from run_body_keeps_untargeted [OF this _ _ rb] unt A
      have "(k0, c0) \<in> set (subscribers b)" by blast
      moreover from A shrunk_run_body [OF rb]
      have "\<forall>cb u. CallUnsubscribe u \<in> set (body cb) \<longrightarrow> attached b u"
        by (blast intro: attached_shrunk)
      ultimately show "?A b" by simp
    qed
  qed
  with att mem show ?thesis by simp
qed

lemma run_body_no_throw: "Throw \<notin> set acts \<Longrightarrow> run_body acts s = (s', out) \<Longrightarrow> out = Returned"
  by (induction acts s rule: run_body.induct) auto

lemma dispatch_group_no_throw:
  assumes nt: "\<And>cb. Throw \<notin> set (body cb)"
  shows "dispatch_group body t key r idx s = (s', evs, out) \<Longrightarrow> out = Returned"
proof (induction idx s arbitrary: s' evs out rule: dispatch_group_induct [where body = body and r = r])
  case (finished idx s)
  then show ?case by (simp add: dispatch_group_done)
next
  case (skip idx s)
  from skip.prems have "dispatch_group body t key r (Suc idx) s = (s', evs, out)"
    by (simp add: dispatch_group_skip [OF skip(1,2)])
  then show ?case by (rule skip.IH)
next
  case (call idx s cb s1 o1)
  from run_body_no_throw [OF nt call(3)] have o1: "o1 = Returned" .
  obtain s2 evs2 o2 where dg: "dispatch_group body t key r (Suc idx) s1 = (s2, evs2, o2)"
    by (cases "dispatch_group body t key r (Suc idx) s1") auto
  from dispatch_group_returned [OF call(1,2) call(3) [unfolded o1] dg] call.prems
  have "out = o2" by simp
  with call.IH [OF o1 dg] show ?case by simp
qed

lemma dispatch_all_no_throw:
  assumes nt: "\<And>cb. Throw \<notin> set (body cb)"
  shows "dispatch_all body t idx s = (s', evs, out) \<Longrightarrow> out = Returned"
proof (induction idx s arbitrary: s' evs out rule: dispatch_all_induct [where body = body and t = t])
  case (finished idx s)
  then show ?case by (simp add: dispatch_all_done)
next
  case (skip idx s)
  from skip.prems have "dispatch_all body t (Suc idx) s = (s', evs, out)"
    by (simp add: dispatch_all_skip [OF skip(1,2)])
  then show ?case by (rule skip.IH)
next
  case (bucket idx s key r s1 evs1 o1)
  from dispatch_group_no_throw [OF nt bucket(3)] have o1: "o1 = Returned" .
  obtain s2 evs2 o2 where da: "dispatch_all body t (Suc idx) s1 = (s2, evs2, o2)"
    by (cases "dispatch_all body t (Suc idx) s1") auto
  from dispatch_all_returned [OF bucket(1,2) bucket(3) [unfolded o1] da] bucket.prems
  have "out = o2" by simp
  with bucket.IH [OF o1 da] show ?case by simp
qed

lemma tick_each_once:
  assumes wf: "well_formed s" and tk: "tick body t s = (s', evs, out)"
  shows "distinct (map ev_subscriber evs)"
    and "set (map ev_subscriber evs) \<subseteq> set (subscribers s)"
    and "out = Returned \<Longrightarrow> set (subscribers s') \<subseteq> set (map ev_subscriber evs)"
proof -
  from tk have da: "dispatch_all body t 0 (s\<lparr>latestTime := t\<rparr>) = (s', evs, out)"
    by (simp add: tick_def)
  have sub: "subscribers_from 0 (s\<lparr>latestTime := t\<rparr>) = subscribers s"
    by (simp add: subscribers_from_0 subscribers_def buckets_def)
  from wf have "distinct (map_keys (drop 0 (subscriptions (s\<lparr>latestTime := t\<rparr>))))"
    and "\<And>r. distinct (entries (heap (s\<lparr>latestTime := t\<rparr>) r))"
    by (simp_all add: well_formed_def)
  from dispatch_all_each_once [OF da this] sub
  show "distinct (map ev_subscriber evs)"
    and "set (map ev_subscriber evs) \<subseteq> set (subscribers s)"
    and "out = Returned \<Longrightarrow> set (subscribers s') \<subseteq> set (map ev_subscriber evs)"
    by (simp_all add: subscribers_from_0)
qed

subsection \<open>The state a tick leaves behind\<close>

text \<open>
  \<^verbatim>\<open>tick\<close> changes the state in one place, the assignment of the new time; everything
  else that changes during a tick is changed by the calls of the callbacks.  A callback
  that throws is the last one called.
\<close>


lemma run_body_calls_made: "fst (run_body (calls_made acts) s) = fst (run_body acts s)"
  by (induction acts s rule: run_body.induct) (simp_all add: calls_made_def)

lemma run_body_outcome: "(snd (run_body acts s) = Threw) = (Throw \<in> set acts)"
  by (induction acts s rule: run_body.induct) auto

lemma replay_append: "replay body s (xs @ ys) = replay body (replay body s xs) ys"
  by (induction xs arbitrary: s) simp_all

lemma dispatch_group_replay:
  "dispatch_group body t key r idx s = (s', evs, out) \<Longrightarrow>
     s' = replay body s (map ev_callback evs) \<and>
     list_all (\<lambda>ev. Throw \<notin> set (body (ev_callback ev))) (butlast evs) \<and>
     (out = Threw) = (evs \<noteq> [] \<and> Throw \<in> set (body (ev_callback (last evs)))) \<and>
     (out = Returned \<longrightarrow> list_all (\<lambda>ev. Throw \<notin> set (body (ev_callback ev))) evs)"
proof (induction idx s arbitrary: s' evs out rule: dispatch_group_induct [where body = body and r = r])
  case (finished idx s)
  then show ?case by (simp add: dispatch_group_done)
next
  case (skip idx s)
  from skip.prems have "dispatch_group body t key r (Suc idx) s = (s', evs, out)"
    by (simp add: dispatch_group_skip [OF skip(1,2)])
  then show ?case by (rule skip.IH)
next
  case (call idx s cb s1 o1)
  from call(3) have s1: "fst (run_body (calls_made (body cb)) s) = s1"
    by (simp add: run_body_calls_made)
  from call(3) run_body_outcome [of "body cb" s] have o1: "(o1 = Threw) = (Throw \<in> set (body cb))"
    by simp
  show ?case
  proof (cases o1)
    case Threw
    with dispatch_group_threw [OF call(1,2), of body s1 t key] call(3) call.prems
    have "s' = s1" "evs = [Notified key cb t (getValue s)]" "out = Threw" by simp_all
    with s1 o1 Threw show ?thesis by simp
  next
    case Returned
    obtain s2 evs2 o2 where dg: "dispatch_group body t key r (Suc idx) s1 = (s2, evs2, o2)"
      by (cases "dispatch_group body t key r (Suc idx) s1") auto
    from dispatch_group_returned [OF call(1,2) call(3) [unfolded Returned] dg] call.prems
    have eq: "s' = s2" "evs = Notified key cb t (getValue s) # evs2" "out = o2"
      by simp_all
    from o1 Returned have nt: "Throw \<notin> set (body cb)" by simp
    from call.IH [OF Returned dg]
    have ih: "s2 = replay body s1 (map ev_callback evs2)"
      "list_all (\<lambda>ev. Throw \<notin> set (body (ev_callback ev))) (butlast evs2)"
      "(o2 = Threw) = (evs2 \<noteq> [] \<and> Throw \<in> set (body (ev_callback (last evs2))))"
      "o2 = Returned \<longrightarrow> list_all (\<lambda>ev. Throw \<notin> set (body (ev_callback ev))) evs2"
      by simp_all
    from ih(3) have o2: "evs2 = [] \<Longrightarrow> o2 = Returned" by (cases o2) auto
    show ?thesis
      unfolding eq using ih s1 nt o2 by auto
  qed
qed

lemma dispatch_all_replay:
  "dispatch_all body t idx s = (s', evs, out) \<Longrightarrow>
     s' = replay body s (map ev_callback evs) \<and>
     list_all (\<lambda>ev. Throw \<notin> set (body (ev_callback ev))) (butlast evs) \<and>
     (out = Threw) = (evs \<noteq> [] \<and> Throw \<in> set (body (ev_callback (last evs)))) \<and>
     (out = Returned \<longrightarrow> list_all (\<lambda>ev. Throw \<notin> set (body (ev_callback ev))) evs)"
proof (induction idx s arbitrary: s' evs out rule: dispatch_all_induct [where body = body and t = t])
  case (finished idx s)
  then show ?case by (simp add: dispatch_all_done)
next
  case (skip idx s)
  from skip.prems have "dispatch_all body t (Suc idx) s = (s', evs, out)"
    by (simp add: dispatch_all_skip [OF skip(1,2)])
  then show ?case by (rule skip.IH)
next
  case (bucket idx s key r s1 evs1 o1)
  from dispatch_group_replay [OF bucket(3)]
  have g: "s1 = replay body s (map ev_callback evs1)"
    "list_all (\<lambda>ev. Throw \<notin> set (body (ev_callback ev))) (butlast evs1)"
    "(o1 = Threw) = (evs1 \<noteq> [] \<and> Throw \<in> set (body (ev_callback (last evs1))))"
    "o1 = Returned \<longrightarrow> list_all (\<lambda>ev. Throw \<notin> set (body (ev_callback ev))) evs1"
    by simp_all
  show ?case
  proof (cases o1)
    case Threw
    with dispatch_all_threw [OF bucket(1,2), of body t s1 evs1] bucket(3) bucket.prems
    have "s' = s1" "evs = evs1" "out = Threw" by simp_all
    with g Threw show ?thesis by simp
  next
    case Returned
    obtain s2 evs2 o2 where da: "dispatch_all body t (Suc idx) s1 = (s2, evs2, o2)"
      by (cases "dispatch_all body t (Suc idx) s1") auto
    from dispatch_all_returned [OF bucket(1,2) bucket(3) [unfolded Returned] da] bucket.prems
    have eq: "s' = s2" "evs = evs1 @ evs2" "out = o2"
      by simp_all
    from bucket.IH [OF Returned da]
    have ih: "s2 = replay body s1 (map ev_callback evs2)"
      "list_all (\<lambda>ev. Throw \<notin> set (body (ev_callback ev))) (butlast evs2)"
      "(o2 = Threw) = (evs2 \<noteq> [] \<and> Throw \<in> set (body (ev_callback (last evs2))))"
      "o2 = Returned \<longrightarrow> list_all (\<lambda>ev. Throw \<notin> set (body (ev_callback ev))) evs2"
      by simp_all
    from g(4) Returned have a1: "list_all (\<lambda>ev. Throw \<notin> set (body (ev_callback ev))) evs1" by simp
    from ih(3) have o2: "evs2 = [] \<Longrightarrow> o2 = Returned" by (cases o2) auto
    have st: "s2 = replay body s (map ev_callback (evs1 @ evs2))"
      using ih(1) g(1) by (simp add: replay_append)
    show ?thesis
    proof (cases "evs2 = []")
      case True
      with o2 eq st a1 show ?thesis
        by (auto simp: list_all_iff dest: in_set_butlastD)
    next
      case False
      with eq st a1 ih show ?thesis
        by (simp add: butlast_append)
    qed
  qed
qed

lemma tick_replay:
  assumes "tick body t s = (s', evs, out)"
  shows "s' = replay body (s\<lparr>latestTime := t\<rparr>) (map ev_callback evs)"
    and "list_all (\<lambda>ev. Throw \<notin> set (body (ev_callback ev))) (butlast evs)"
    and "(out = Threw) = (evs \<noteq> [] \<and> Throw \<in> set (body (ev_callback (last evs))))"
  using dispatch_all_replay [of body t 0 "s\<lparr>latestTime := t\<rparr>" s' evs out] assms
  by (simp_all add: tick_def)

lemma replay_no_calls:
  "list_all (\<lambda>cb. calls_made (body cb) = []) cbs \<Longrightarrow> replay body s cbs = s"
  by (induction cbs arbitrary: s) simp_all

text \<open>
  A subscriber whose unsubscribe function has run is gone, when the function is attached
  to its bucket.
\<close>

lemma shrunk_replay: "shrunk s (replay body s cbs)"
proof (induction cbs arbitrary: s)
  case Nil
  show ?case by (simp add: shrunk_refl)
next
  case (Cons cb cbs)
  have "shrunk s (fst (run_body (calls_made (body cb)) s))"
    by (cases "run_body (calls_made (body cb)) s") (auto dest: shrunk_run_body)
  from shrunk_trans [OF this Cons.IH] show ?case by simp
qed

lemma subscribers_shrunk: "shrunk s s' \<Longrightarrow> set (subscribers s') \<subseteq> set (subscribers s)"
  using subscribers_from_shrunk [of s s' 0] by (simp add: subscribers_from_0)

lemma unsubscribe_removes_attached:
  assumes wf: "well_formed s" and att: "attached s (r, c, k)"
  shows "(k, c) \<notin> set (subscribers (unsubscribe (r, c, k) s))"
proof (cases "map_get (subscriptions s) k")
  case None
  then have "k \<notin> fst ` set (entries (subscriptions s))"
    by (simp add: map_get_None_keys map_keys_def)
  then have "(k, c) \<notin> set (subscribers s)"
    by (auto simp: subscribers_iff image_iff)
  moreover have "set (subscribers (unsubscribe (r, c, k) s)) \<subseteq> set (subscribers s)"
    by (rule subscribers_shrunk) (rule shrunk_unsubscribe)
  ultimately show ?thesis by blast
next
  case (Some r')
  then have "(k, r') \<in> set (entries (subscriptions s))"
    by (auto simp: map_get_map_of dest: map_of_SomeD)
  with att have "r' = r" by (auto simp: attached_def list_all_iff)
  with Some unsubscribe_removes [OF wf, of k r c] show ?thesis by simp
qed

lemma run_body_removes:
  "well_formed s \<Longrightarrow> \<forall>u. CallUnsubscribe u \<in> set acts \<longrightarrow> attached s u \<Longrightarrow>
   Throw \<notin> set acts \<Longrightarrow> CallUnsubscribe (r, c, k) \<in> set acts \<Longrightarrow>
     (k, c) \<notin> set (subscribers (fst (run_body acts s)))"
proof (induction acts s rule: run_body.induct)
  case (1 s)
  then show ?case by simp
next
  case (2 u rest s)
  have wf': "well_formed (unsubscribe u s)"
    using "2.prems"(1) by (rule well_formed_unsubscribe)
  have att': "\<forall>v. CallUnsubscribe v \<in> set rest \<longrightarrow> attached (unsubscribe u s) v"
    using "2.prems"(2) by (auto intro: attached_shrunk shrunk_unsubscribe)
  from "2.prems"(3) have nt: "Throw \<notin> set rest" by simp
  show ?case
  proof (cases "CallUnsubscribe (r, c, k) \<in> set rest")
    case True
    from "2.IH" [OF wf' att' nt True] show ?thesis by simp
  next
    case False
    with "2.prems"(4) have u: "u = (r, c, k)" by simp
    from "2.prems"(2) u have "attached s (r, c, k)" by simp
    from unsubscribe_removes_attached [OF "2.prems"(1) this] u
    have gone: "(k, c) \<notin> set (subscribers (unsubscribe u s))" by simp
    have "shrunk (unsubscribe u s) (fst (run_body rest (unsubscribe u s)))"
      by (cases "run_body rest (unsubscribe u s)") (auto dest: shrunk_run_body)
    from subscribers_shrunk [OF this] gone show ?thesis by auto
  qed
next
  case (3 rest s)
  have wf': "well_formed (cleanup s)" using "3.prems"(1) by (rule well_formed_cleanup)
  have att': "\<forall>v. CallUnsubscribe v \<in> set rest \<longrightarrow> attached (cleanup s) v"
    using "3.prems"(2) by (auto intro: attached_shrunk shrunk_cleanup)
  from "3.prems"(3,4) have "Throw \<notin> set rest" "CallUnsubscribe (r, c, k) \<in> set rest" by simp_all
  from "3.IH" [OF wf' att' this] show ?case by simp
next
  case (4 rest s)
  then show ?case by simp
qed

lemma calls_made_no_throw: "Throw \<notin> set acts \<Longrightarrow> calls_made acts = acts"
  by (auto simp: calls_made_def)

lemma replay_removes:
  assumes nt: "\<And>cb. Throw \<notin> set (body cb)"
  shows "well_formed s \<Longrightarrow> \<forall>cb u. CallUnsubscribe u \<in> set (body cb) \<longrightarrow> attached s u \<Longrightarrow>
     cb \<in> set cbs \<Longrightarrow> CallUnsubscribe (r, c, k) \<in> set (body cb) \<Longrightarrow>
     (k, c) \<notin> set (subscribers (replay body s cbs))"
proof (induction cbs arbitrary: s)
  case Nil
  then show ?case by simp
next
  case (Cons x xs)
  let ?s1 = "fst (run_body (body x) s)"
  have sh: "shrunk s ?s1"
    by (cases "run_body (body x) s") (auto dest: shrunk_run_body)
  have wf1: "well_formed ?s1" using Cons.prems(1) sh by (rule well_formed_shrunk)
  have att1: "\<forall>cb u. CallUnsubscribe u \<in> set (body cb) \<longrightarrow> attached ?s1 u"
    using Cons.prems(2) sh by (blast intro: attached_shrunk)
  have step: "replay body s (x # xs) = replay body ?s1 xs"
    by (simp add: calls_made_no_throw [OF nt])
  show ?case
  proof (cases "cb = x")
    case True
    from Cons.prems(2) have "\<forall>u. CallUnsubscribe u \<in> set (body x) \<longrightarrow> attached s u" by blast
    from run_body_removes [OF Cons.prems(1) this nt] Cons.prems(4) True
    have "(k, c) \<notin> set (subscribers ?s1)" by simp
    moreover have "set (subscribers (replay body ?s1 xs)) \<subseteq> set (subscribers ?s1)"
      by (rule subscribers_shrunk) (rule shrunk_replay)
    ultimately show ?thesis
      unfolding step by blast
  next
    case False
    with Cons.prems(3) have "cb \<in> set xs" by simp
    from Cons.IH [OF wf1 att1 this Cons.prems(4)] show ?thesis unfolding step .
  qed
qed

text \<open>
  A tick whose callbacks do not throw and call only current unsubscribe functions:
  it returns, it keeps the subscribers whose function nobody calls, and the subscribers
  whose function a called callback has called are gone when it ends.
\<close>

lemma subscribers_latestTime: "subscribers (s\<lparr>latestTime := t\<rparr>) = subscribers s"
  by (simp add: subscribers_def buckets_def)

lemma tick_current_unsubscribes:
  assumes wf: "well_formed s"
    and nothrow: "\<forall>cb. Throw \<notin> set (body cb)"
    and cur: "\<forall>cb u. CallUnsubscribe u \<in> set (body cb) \<longrightarrow> current s u"
    and tk: "tick body t s = (s', evs, out)"
  shows "out = Returned"
    and "p \<in> set (subscribers s) \<Longrightarrow> \<forall>cb r. CallUnsubscribe (r, snd p, fst p) \<notin> set (body cb) \<Longrightarrow>
           p \<in> set (subscribers s')"
    and "ev \<in> set evs \<Longrightarrow> CallUnsubscribe (r, c, k) \<in> set (body (ev_callback ev)) \<Longrightarrow>
           (k, c) \<notin> set (subscribers s')"
proof -
  from tk have da: "dispatch_all body t 0 (s\<lparr>latestTime := t\<rparr>) = (s', evs, out)"
    by (simp add: tick_def)
  have nt: "Throw \<notin> set (body cb)" for cb using nothrow by simp
  from dispatch_all_no_throw [OF nt da] show "out = Returned" .
  have att: "\<forall>cb u. CallUnsubscribe u \<in> set (body cb) \<longrightarrow> attached (s\<lparr>latestTime := t\<rparr>) u"
  proof (intro allI impI)
    fix cb u
    assume "CallUnsubscribe u \<in> set (body cb)"
    with cur have "current s u" by blast
    from current_attached [OF wf this] show "attached (s\<lparr>latestTime := t\<rparr>) u"
      by (simp add: attached_def)
  qed
  show "p \<in> set (subscribers s')"
    if p: "p \<in> set (subscribers s)"
      and unt: "\<forall>cb r. CallUnsubscribe (r, snd p, fst p) \<notin> set (body cb)"
  proof -
    from p have "(fst p, snd p) \<in> set (subscribers (s\<lparr>latestTime := t\<rparr>))"
      by (simp add: subscribers_latestTime)
    from dispatch_all_keeps_untargeted [OF da att unt this] show ?thesis by simp
  qed
  show "(k, c) \<notin> set (subscribers s')"
    if ev: "ev \<in> set evs" and call: "CallUnsubscribe (r, c, k) \<in> set (body (ev_callback ev))"
  proof -
    from wf have wf0: "well_formed (s\<lparr>latestTime := t\<rparr>)" by simp
    from ev have "ev_callback ev \<in> set (map ev_callback evs)" by simp
    from replay_removes [of body, OF nt wf0 att this call] tick_replay(1) [OF tk]
    show ?thesis by simp
  qed
qed

subsection \<open>The pending timeout with the primitives of window\<close>

text \<open>
  With the default primitives \<^verbatim>\<open>cleanup\<close> and \<^verbatim>\<open>scheduleNextTick\<close> clear in the same
  registry.  Then at most one timeout is pending in every reachable state, and after
  \<^verbatim>\<open>cleanup\<close> none is.
\<close>

lemma one_timeout_cases:
  "one_timeout s =
     (pending (own_timers s) = [] \<or>
      (\<exists>h ms. pending (own_timers s) = [(h, ms)] \<and> nextTickId s = Some h))"
  by (auto simp: one_timeout_def split: list.splits)

lemma injected_scheduleNextTick [simp]: "injected (scheduleNextTick s) = injected s"
  by (simp add: scheduleNextTick_def own_clearTimeout_def own_setTimeout_def with_own_timers_def
      Let_def split: prod.splits)

lemma injected_cleanup [simp]: "injected (cleanup s) = injected s"
  by (simp add: cleanup_def window_clearTimeout_def split: option.splits)

lemma injected_unsubscribe [simp]: "injected (unsubscribe u s) = injected s"
  by (cases u) (simp add: unsubscribe_def Let_def)

lemma injected_subscribe: "subscribe cb k s = (u, s') \<Longrightarrow> injected s' = injected s"
  by (auto simp: subscribe_def Let_def split: option.splits)

lemma one_timeout_scheduleNextTick: "one_timeout s \<Longrightarrow> one_timeout (scheduleNextTick s)"
  by (auto simp: one_timeout_cases scheduleNextTick_def own_clearTimeout_def own_setTimeout_def
      own_timers_def with_own_timers_def reg_clearTimeout_def reg_setTimeout_def Let_def
      split: option.splits)

lemma one_timeout_heap_update [simp]: "one_timeout (s\<lparr>heap := h\<rparr>) = one_timeout s"
  by (simp add: one_timeout_cases own_timers_def)

lemma one_timeout_subscriptions_update [simp]:
  "one_timeout (s\<lparr>subscriptions := m\<rparr>) = one_timeout s"
  by (simp add: one_timeout_cases own_timers_def)

lemma one_timeout_next_ref_update [simp]: "one_timeout (s\<lparr>next_ref := n\<rparr>) = one_timeout s"
  by (simp add: one_timeout_cases own_timers_def)

lemma one_timeout_latestTime_update [simp]: "one_timeout (s\<lparr>latestTime := t\<rparr>) = one_timeout s"
  by (simp add: one_timeout_cases own_timers_def)

lemma one_timeout_unsubscribe: "one_timeout s \<Longrightarrow> one_timeout (unsubscribe u s)"
  by (cases u) (simp add: unsubscribe_def Let_def one_timeout_scheduleNextTick)

lemma one_timeout_subscribe: "one_timeout s \<Longrightarrow> subscribe cb k s = (u, s') \<Longrightarrow> one_timeout s'"
  by (auto simp: subscribe_def Let_def one_timeout_scheduleNextTick split: option.splits)

lemma cleanup_default_clears:
  "\<not> injected s \<Longrightarrow> one_timeout s \<Longrightarrow>
     pending (own_timers (cleanup s)) = [] \<and> nextTickId (cleanup s) = None"
  by (auto simp: one_timeout_cases cleanup_def window_clearTimeout_def own_timers_def
      reg_clearTimeout_def split: option.splits)

lemma one_timeout_cleanup: "\<not> injected s \<Longrightarrow> one_timeout s \<Longrightarrow> one_timeout (cleanup s)"
  using cleanup_default_clears [of s] by (simp add: one_timeout_cases)

lemma one_timeout_own_clearTimeout: "one_timeout s \<Longrightarrow> one_timeout (own_clearTimeout h s)"
  by (auto simp: one_timeout_def own_clearTimeout_def own_timers_def with_own_timers_def
      reg_clearTimeout_def split: option.splits list.splits if_splits)

lemma injected_own_clearTimeout [simp]: "injected (own_clearTimeout h s) = injected s"
  by (simp add: own_clearTimeout_def with_own_timers_def)

lemma default_run_body:
  "\<not> injected s \<and> one_timeout s \<Longrightarrow> run_body acts s = (s', out) \<Longrightarrow>
     \<not> injected s' \<and> one_timeout s'"
  by (induction acts s rule: run_body.induct)
    (auto simp: one_timeout_unsubscribe one_timeout_cleanup)

lemma default_dispatch_all:
  assumes "dispatch_all body t idx s = (s', evs, out)" and "\<not> injected s \<and> one_timeout s"
  shows "\<not> injected s' \<and> one_timeout s'"
proof -
  let ?A = "\<lambda>a. \<not> injected a \<and> one_timeout a"
  have "?A s \<longrightarrow> ?A s'"
  proof (rule dispatch_all_rel [where R = "\<lambda>a b. ?A a \<longrightarrow> ?A b" and body = body, OF _ _ _ assms(1)])
    show "?A a \<longrightarrow> ?A a" for a by simp
    show "?A a \<longrightarrow> ?A b \<Longrightarrow> ?A b \<longrightarrow> ?A c \<Longrightarrow> ?A a \<longrightarrow> ?A c" for a b c by blast
    show "run_body (body cb) a = (b, o') \<Longrightarrow> ?A a \<longrightarrow> ?A b" for cb a b o'
      using default_run_body [of a "body cb" b o'] by blast
  qed
  with assms(2) show ?thesis by blast
qed

lemma default_perform:
  assumes "\<not> injected (engine ss) \<and> one_timeout (engine ss)"
  shows "\<not> injected (engine (perform body ss c)) \<and> one_timeout (engine (perform body ss c))"
proof (cases c)
  case (Subscribe cb k)
  with assms show ?thesis
    by (auto split: prod.splits dest: injected_subscribe one_timeout_subscribe)
next
  case (Unsubscribe n)
  with assms show ?thesis by (simp add: one_timeout_unsubscribe)
next
  case Cleanup
  with assms show ?thesis by (simp add: one_timeout_cleanup)
next
  case (TimerFires h now)
  let ?s = "(own_clearTimeout (Some h) (engine ss))\<lparr>latestTime := now\<rparr>"
  obtain s' evs out where da: "dispatch_all body now 0 ?s = (s', evs, out)"
    by (cases "dispatch_all body now 0 ?s") auto
  from assms have "\<not> injected ?s \<and> one_timeout ?s"
    by (simp add: one_timeout_own_clearTimeout)
  from default_dispatch_all [OF da this] da TimerFires assms show ?thesis
    by (simp add: fire_def tick_def)
qed

lemma default_run:
  "\<not> injected (engine ss) \<and> one_timeout (engine ss) \<Longrightarrow>
     \<not> injected (engine (run body calls ss)) \<and> one_timeout (engine (run body calls ss))"
  unfolding run_def
proof (induction calls arbitrary: ss)
  case Nil
  then show ?case by simp
next
  case (Cons c calls)
  from Cons.IH [OF default_perform [OF Cons.prems]] show ?case by simp
qed

lemma default_new_session:
  "\<not> injected (engine (new_session t0 False)) \<and> one_timeout (engine (new_session t0 False))"
  by (simp add: new_session_def TimeSync_new_def one_timeout_def own_timers_def no_timers_def)

lemma default_primitives_one_timeout:
  "one_timeout (engine (run body calls (new_session t0 False)))"
  using default_run [OF default_new_session] by blast

lemma default_primitives_cleanup:
  "pending (own_timers (cleanup (engine (run body calls (new_session t0 False))))) = []"
  using default_run [OF default_new_session, where ?t0.1 = t0 and body = body and calls = calls]
  by (simp add: cleanup_default_clears)

subsection \<open>What scheduleNextTick arms\<close>

lemma scheduleNextTick_idle:
  "earliestPossibleUpdateMs Infinity (map_keys (subscriptions s)) = Infinity \<Longrightarrow>
     scheduleNextTick s = own_clearTimeout (nextTickId s) s"
  by (simp add: scheduleNextTick_def Let_def own_clearTimeout_def)

lemma scheduleNextTick_arms:
  "earliestPossibleUpdateMs Infinity (map_keys (subscriptions s)) \<noteq> Infinity \<Longrightarrow>
     pending (own_timers (scheduleNextTick s)) =
       pending (own_timers (own_clearTimeout (nextTickId s) s)) @
         [(next_handle (own_timers s), Infinity)] \<and>
     nextTickId (scheduleNextTick s) = Some (next_handle (own_timers s)) \<and>
     nextTickMs (scheduleNextTick s) = Some Infinity"
  by (auto simp: scheduleNextTick_def own_clearTimeout_def own_setTimeout_def own_timers_def
      with_own_timers_def reg_clearTimeout_def reg_setTimeout_def Let_def split: option.splits)

section \<open>The claims\<close>

subsection \<open>C1: one snapshot for every subscriber\<close>




subsection \<open>C2 and C3: unsubscribe functions that outlive their bucket\<close>

text \<open>
  C2.  Callback 1 subscribes at 100 ms and unsubscribes, which deletes the bucket;
  callback 2 subscribes at 100 ms, which makes a new bucket with a new \<^verbatim>\<open>Set\<close>; the
  first unsubscribe function is called again.  Its \<^verbatim>\<open>Set\<close> is the old, empty one, so
  the test \<^verbatim>\<open>subGroup?.size === 0\<close> succeeds and the key 100 is deleted from the map.
  The subscription of callback 2 is live and the map has no key for its interval.
\<close>

theorem stale_unsubscribe_loses_live_interval:
  "live_intervals
     (run inert [Subscribe 1 (Fin 100), Unsubscribe 0, Subscribe 2 (Fin 100), Unsubscribe 0]
        (new_session 0 False)) = [Fin 100] \<and>
   map_keys (subscriptions (engine
     (run inert [Subscribe 1 (Fin 100), Unsubscribe 0, Subscribe 2 (Fin 100), Unsubscribe 0]
        (new_session 0 False)))) = []"
  by code_simp

text \<open>
  C3.  The same defect seen as a failure of idempotence: with a subscription at the
  same interval arriving between the two calls of one unsubscribe function, the state
  after the second call is not the state after the first.  After the one call the
  bucket of 250 ms holds callback 8 and a timeout is pending; after the second call
  the bucket is gone and nothing is pending.
\<close>

theorem second_unsubscribe_removes_new_bucket:
  "buckets (engine
     (run inert [Subscribe 7 (Fin 250), Unsubscribe 0, Subscribe 8 (Fin 250)]
        (new_session 0 False))) = [(Fin 250, [8])] \<and>
   pending (own_timers (engine
     (run inert [Subscribe 7 (Fin 250), Unsubscribe 0, Subscribe 8 (Fin 250)]
        (new_session 0 False)))) = [(2, Infinity)] \<and>
   buckets (engine
     (run inert [Subscribe 7 (Fin 250), Unsubscribe 0, Subscribe 8 (Fin 250), Unsubscribe 0]
        (new_session 0 False))) = [] \<and>
   pending (own_timers (engine
     (run inert [Subscribe 7 (Fin 250), Unsubscribe 0, Subscribe 8 (Fin 250), Unsubscribe 0]
        (new_session 0 False)))) = []"
  by code_simp

text \<open>
  Without a subscription in between, the second call of an unsubscribe function whose
  bucket is gone leaves the buckets alone but runs \<^verbatim>\<open>scheduleNextTick\<close> once more:
  the pending timeout is cleared and a new one is armed.
\<close>

lemma repeated_unsubscribe_rearms:
  "pending (own_timers (engine
     (run inert [Subscribe 1 (Fin 100), Subscribe 3 (Fin 50), Unsubscribe 0]
        (new_session 0 False)))) = [(3, Infinity)] \<and>
   pending (own_timers (engine
     (run inert [Subscribe 1 (Fin 100), Subscribe 3 (Fin 50), Unsubscribe 0, Unsubscribe 0]
        (new_session 0 False)))) = [(4, Infinity)] \<and>
   buckets (engine
     (run inert [Subscribe 1 (Fin 100), Subscribe 3 (Fin 50), Unsubscribe 0, Unsubscribe 0]
        (new_session 0 False))) = [(Fin 50, [3])]"
  by code_simp

subsection \<open>C4: the delay of the timeout\<close>

text \<open>
  C4.  With one bucket of 1000 ms the loop of \<^verbatim>\<open>scheduleNextTick\<close> finds the minimum
  1000, and the timeout it then requests has the delay \<^verbatim>\<open>Infinity\<close>: line 75 assigns
  \<^verbatim>\<open>Infinity\<close> to \<^verbatim>\<open>#nextTickMs\<close>, and line 77 passes that field.
\<close>

theorem scheduleNextTick_delay_is_Infinity:
  "earliestPossibleUpdateMs Infinity
     (map_keys (subscriptions (snd (subscribe 1 (Fin 1000) (TimeSync_new 0 False))))) = Fin 1000 \<and>
   pending (own_timers (scheduleNextTick (snd (subscribe 1 (Fin 1000) (TimeSync_new 0 False)))))
     = [(2, Infinity)] \<and>
   nextTickId (scheduleNextTick (snd (subscribe 1 (Fin 1000) (TimeSync_new 0 False)))) = Some 2 \<and>
   nextTickMs (scheduleNextTick (snd (subscribe 1 (Fin 1000) (TimeSync_new 0 False))))
     = Some Infinity"
  by code_simp

subsection \<open>C5: cleanup and primitives passed to the constructor\<close>

text \<open>
  C5.  An engine built with primitives of its own arms its timeout with them, and
  \<^verbatim>\<open>cleanup\<close> calls \<^verbatim>\<open>window.clearTimeout\<close>: the timeout stays pending in the registry
  it was armed in, \<^verbatim>\<open>#nextTickId\<close> is forgotten, and when the timeout elapses the
  tick runs and notifies the subscriber.
\<close>

theorem cleanup_leaves_injected_timeout_pending:
  "pending (own_timers (cleanup (snd (subscribe 7 (Fin 1000) (TimeSync_new 0 True)))))
     = [(1, Infinity)] \<and>
   nextTickId (cleanup (snd (subscribe 7 (Fin 1000) (TimeSync_new 0 True)))) = None \<and>
   map_option (\<lambda>res. (fst (snd res), snd (snd res)))
     (fire inert 5 1 (cleanup (snd (subscribe 7 (Fin 1000) (TimeSync_new 0 True)))))
     = Some ([Notified (Fin 1000) 7 5 5], Returned)"
  by code_simp

subsection \<open>C6: a callback that throws\<close>

text \<open>
  C6, as the claim states it, fails: \<^verbatim>\<open>tick\<close> has no \<^verbatim>\<open>try\<close>, so the exception of
  callback 1 leaves both loops.  Callbacks 2 and 3 are subscribed and are not called in
  that tick.
\<close>

theorem throwing_callback_ends_tick_counterexample:
  "subscribers three_subscribers = [(Fin 1000, 1), (Fin 1000, 2), (Fin 5000, 3)] \<and>
   fst (snd (tick raiser 7 three_subscribers)) = [Notified (Fin 1000) 1 7 7] \<and>
   snd (snd (tick raiser 7 three_subscribers)) = Threw"
  by code_simp

text \<open>
  C6 as amended.  In every tick, a callback that throws is the last one called, and the
  exception leaves \<^verbatim>\<open>tick\<close> exactly when the last callback called has thrown.  The
  fault changes nothing in the engine: the state after the tick is the state with the
  new time, changed only by the calls (of unsubscribe functions, of \<^verbatim>\<open>cleanup\<close>) that
  the callbacks called have made themselves, each up to its return or its throw; so when
  they have made none, the state is what it was but for the new time, the buckets, the
  pending timeout and its handle included.  When no callback unsubscribes and the first
  subscriber in iteration order whose callback throws is \<open>p\<close>, the tick calls the
  subscribers before \<open>p\<close> and \<open>p\<close> itself, calls none of those after \<open>p\<close>, the
  exception leaves \<^verbatim>\<open>tick\<close>, and the buckets and their members are what they were.
\<close>

theorem tick_ends_at_first_throwing_callback:
  "list_all (\<lambda>ev. Throw \<notin> set (body (ev_callback ev))) (butlast (fst (snd (tick body t s)))) \<and>
   (snd (snd (tick body t s)) = Threw) =
     (fst (snd (tick body t s)) \<noteq> [] \<and>
      Throw \<in> set (body (ev_callback (last (fst (snd (tick body t s))))))) \<and>
   fst (tick body t s) =
     replay body (s\<lparr>latestTime := t\<rparr>) (map ev_callback (fst (snd (tick body t s)))) \<and>
   (list_all (\<lambda>ev. calls_made (body (ev_callback ev)) = []) (fst (snd (tick body t s))) \<longrightarrow>
      fst (tick body t s) = s\<lparr>latestTime := t\<rparr>) \<and>
   ((\<forall>cb. list_all (\<lambda>a. \<not> is_unsubscribe a) (body cb)) \<and>
    subscribers s = before @ p # rest \<and>
    (\<forall>q \<in> set before. Throw \<notin> set (body (snd q))) \<and>
    Throw \<in> set (body (snd p)) \<longrightarrow>
      fst (snd (tick body t s)) = map (notification t) (before @ [p]) \<and>
      snd (snd (tick body t s)) = Threw \<and>
      heap (fst (tick body t s)) = heap s \<and>
      subscriptions (fst (tick body t s)) = subscriptions s)"
proof -
  obtain s' evs out where tk: "tick body t s = (s', evs, out)"
    by (cases "tick body t s") auto
  note r = tick_replay [OF tk]
  have same: "s' = s\<lparr>latestTime := t\<rparr>"
    if "list_all (\<lambda>ev. calls_made (body (ev_callback ev)) = []) evs"
  proof -
    from that have "list_all (\<lambda>cb. calls_made (body cb) = []) (map ev_callback evs)"
      by (simp add: list_all_iff)
    from replay_no_calls [OF this] r(1) show ?thesis by simp
  qed
  have first: "evs = map (notification t) (before @ [p]) \<and> out = Threw \<and>
      heap s' = heap s \<and> subscriptions s' = subscriptions s"
    if calm: "\<forall>cb. list_all (\<lambda>a. \<not> is_unsubscribe a) (body cb)"
      and split: "subscribers s = before @ p # rest"
      and quiet: "\<forall>q \<in> set before. Throw \<notin> set (body (snd q))"
      and throws: "Throw \<in> set (body (snd p))"
  proof -
    have c: "list_all (\<lambda>a. \<not> is_unsubscribe a) (body cb)" for cb
      using calm by simp
    from deliver_first_throw [OF quiet throws, of rest] split
    have dl: "deliver body (subscribers s) = (before @ [p], Threw)" by simp
    from tick_no_unsubscribe [OF c tk] dl show ?thesis by simp
  qed
  show ?thesis
    unfolding tk fst_conv snd_conv
  proof (intro conjI impI)
    show "list_all (\<lambda>ev. Throw \<notin> set (body (ev_callback ev))) (butlast evs)" by (rule r(2))
    show "(out = Threw) = (evs \<noteq> [] \<and> Throw \<in> set (body (ev_callback (last evs))))"
      by (rule r(3))
    show "s' = replay body (s\<lparr>latestTime := t\<rparr>) (map ev_callback evs)" by (rule r(1))
    show "s' = s\<lparr>latestTime := t\<rparr>"
      if "list_all (\<lambda>ev. calls_made (body (ev_callback ev)) = []) evs"
      using that by (rule same)
  next
    assume h: "(\<forall>cb. list_all (\<lambda>a. \<not> is_unsubscribe a) (body cb)) \<and>
      subscribers s = before @ p # rest \<and>
      (\<forall>q \<in> set before. Throw \<notin> set (body (snd q))) \<and>
      Throw \<in> set (body (snd p))"
    then have f: "evs = map (notification t) (before @ [p]) \<and> out = Threw \<and>
      heap s' = heap s \<and> subscriptions s' = subscriptions s"
      by (intro first) blast+
    from f show "evs = map (notification t) (before @ [p])" by blast
    from f show "out = Threw" by blast
    from f show "heap s' = heap s" by blast
    from f show "subscriptions s' = subscriptions s" by blast
  qed
qed

theorem tick_ends_at_first_throwing_callback_witness:
  "subscribers three_subscribers = [(Fin 1000, 1), (Fin 1000, 2), (Fin 5000, 3)] \<and>
   fst (snd (tick second_raiser 7 three_subscribers))
     = [Notified (Fin 1000) 1 7 7, Notified (Fin 1000) 2 7 7] \<and>
   snd (snd (tick second_raiser 7 three_subscribers)) = Threw \<and>
   fst (tick second_raiser 7 three_subscribers) = three_subscribers\<lparr>latestTime := 7\<rparr> \<and>
   fst (tick closing_raiser 7 three_subscribers) = cleanup (three_subscribers\<lparr>latestTime := 7\<rparr>)"
proof -
  have calm: "\<forall>cb. list_all (\<lambda>a. \<not> is_unsubscribe a) (second_raiser cb)"
    by (simp add: second_raiser_def)
  have sub3: "subscribers three_subscribers = [(Fin 1000, 1), (Fin 1000, 2), (Fin 5000, 3)]"
    by code_simp
  then have sub: "subscribers three_subscribers = [(Fin 1000, 1)] @ (Fin 1000, 2) # [(Fin 5000, 3)]"
    by simp
  have q: "\<forall>q \<in> set [(Fin 1000, 1::nat)]. Throw \<notin> set (second_raiser (snd q))"
    by (simp add: second_raiser_def)
  have th: "Throw \<in> set (second_raiser (snd (Fin 1000, 2::nat)))"
    by (simp add: second_raiser_def)
  note r = tick_ends_at_first_throwing_callback
    [of second_raiser 7 three_subscribers "[(Fin 1000, 1)]" "(Fin 1000, 2)" "[(Fin 5000, 3)]"]
  from r calm sub q th
  have evs: "fst (snd (tick second_raiser 7 three_subscribers))
      = [Notified (Fin 1000) 1 7 7, Notified (Fin 1000) 2 7 7]"
    and out: "snd (snd (tick second_raiser 7 three_subscribers)) = Threw"
    by (simp_all add: notification_def)
  have "list_all (\<lambda>ev. calls_made (second_raiser (ev_callback ev)) = [])
      (fst (snd (tick second_raiser 7 three_subscribers)))"
    by (simp add: evs second_raiser_def calls_made_def)
  with r have st: "fst (tick second_raiser 7 three_subscribers) = three_subscribers\<lparr>latestTime := 7\<rparr>"
    by blast
  have "fst (snd (tick closing_raiser 7 three_subscribers)) = [Notified (Fin 1000) 1 7 7]"
    by code_simp
  with tick_ends_at_first_throwing_callback [of closing_raiser 7 three_subscribers]
  have cl: "fst (tick closing_raiser 7 three_subscribers) = cleanup (three_subscribers\<lparr>latestTime := 7\<rparr>)"
    by (simp add: closing_raiser_def calls_made_def)
  from sub3 evs out st cl show ?thesis by simp
qed

subsection \<open>C7: one pending timeout\<close>

text \<open>
  C7.  An engine built with primitives of its own has a timeout pending; \<^verbatim>\<open>cleanup\<close>
  calls \<^verbatim>\<open>window.clearTimeout\<close> and sets \<^verbatim>\<open>#nextTickId\<close> to \<^verbatim>\<open>undefined\<close>.  The next new
  bucket runs \<^verbatim>\<open>scheduleNextTick\<close>, which clears \<^verbatim>\<open>undefined\<close> and arms a second
  timeout: the first was never cancelled, and two are pending at once.
\<close>

theorem two_timeouts_pending_after_cleanup:
  "pending (own_timers (engine
     (run inert [Subscribe 1 (Fin 100), Cleanup, Subscribe 2 (Fin 200)] (new_session 0 True))))
     = [(1, Infinity), (2, Infinity)]"
  by code_simp

subsection \<open>C8: callbacks that unsubscribe during a tick\<close>

text \<open>
  C8.  Callback 1 subscribes at 100 ms and unsubscribes, which deletes the bucket;
  callback 2 subscribes at 50 ms and callback 3 at 100 ms, which makes a new bucket of
  100 ms with a new \<^verbatim>\<open>Set\<close>.  In the tick, callback 2 unsubscribes itself and calls the
  unsubscribe function of callback 1 once more.  That function holds the old, empty
  \<^verbatim>\<open>Set\<close>: the test \<^verbatim>\<open>subGroup?.size === 0\<close> succeeds and the key 100 is deleted from
  the map before the outer loop of \<^verbatim>\<open>tick\<close> has reached it.  \<^verbatim>\<open>tick\<close> returns normally;
  callback 3, which nobody has unsubscribed, is called neither in this tick nor in the
  next one.  A tick of the same state in which callback 2 does nothing calls both.
\<close>

theorem stale_unsubscribe_in_tick_skips_subscriber:
  "returned stale_session = [(0, 1, Fin 100), (1, 2, Fin 50), (2, 3, Fin 100)] \<and>
   invoked stale_session = [0] \<and>
   subscribers (engine stale_session) = [(Fin 50, 2), (Fin 100, 3)] \<and>
   fst (snd (tick stale_caller 7 (engine stale_session))) = [Notified (Fin 50) 2 7 7] \<and>
   snd (snd (tick stale_caller 7 (engine stale_session))) = Returned \<and>
   subscribers (fst (tick stale_caller 7 (engine stale_session))) = [] \<and>
   fst (snd (tick inert 8 (fst (tick stale_caller 7 (engine stale_session))))) = [] \<and>
   fst (snd (tick inert 7 (engine stale_session)))
     = [Notified (Fin 50) 2 7 7, Notified (Fin 100) 3 7 7]"
  by code_simp

text \<open>
  The same happens with an unsubscribe function that has not been called before: here
  callback 1 has subscribed twice at 100 ms and called the first of the two functions; the
  second one holds the same old \<^verbatim>\<open>Set\<close>.
\<close>

lemma unused_unsubscribe_in_tick_skips_subscriber:
  "returned twice_session = [(0, 1, Fin 100), (0, 1, Fin 100), (1, 2, Fin 50), (2, 3, Fin 100)] \<and>
   invoked twice_session = [0] \<and>
   subscribers (engine twice_session) = [(Fin 50, 2), (Fin 100, 3)] \<and>
   fst (snd (tick stale_caller 7 (engine twice_session))) = [Notified (Fin 50) 2 7 7] \<and>
   snd (snd (tick stale_caller 7 (engine twice_session))) = Returned \<and>
   subscribers (fst (tick stale_caller 7 (engine twice_session))) = []"
  by code_simp

text \<open>
  With current unsubscribe functions the defect does not show.  Take a well-formed state
  and callbacks that do not throw and call only current unsubscribe functions, their
  own or those of other subscribers.  Then \<^verbatim>\<open>tick\<close> returns normally; no subscriber is
  called twice and only subscribers of the start of the tick are called; every
  subscriber of the start of the tick whose unsubscribe function no callback calls is
  called exactly once, and so is every subscriber that is still subscribed when the tick
  ends; a subscriber whose unsubscribe function a called callback has called is not
  subscribed when the tick ends; and whoever is not subscribed then is not called by the
  next tick.
\<close>

lemma tick_with_current_unsubscribes:
  assumes wf: "well_formed s"
    and nothrow: "\<forall>cb. Throw \<notin> set (body cb)"
    and cur: "\<forall>cb u. CallUnsubscribe u \<in> set (body cb) \<longrightarrow> current s u"
  shows "snd (snd (tick body t s)) = Returned \<and>
    distinct (map ev_subscriber (fst (snd (tick body t s)))) \<and>
    set (map ev_subscriber (fst (snd (tick body t s)))) \<subseteq> set (subscribers s) \<and>
    (\<forall>p \<in> set (subscribers s).
       (\<forall>cb r. CallUnsubscribe (r, snd p, fst p) \<notin> set (body cb)) \<longrightarrow>
       count_list (map ev_subscriber (fst (snd (tick body t s)))) p = 1) \<and>
    (\<forall>p \<in> set (subscribers (fst (tick body t s))).
       count_list (map ev_subscriber (fst (snd (tick body t s)))) p = 1) \<and>
    (\<forall>ev \<in> set (fst (snd (tick body t s))).
       \<forall>r c k. CallUnsubscribe (r, c, k) \<in> set (body (ev_callback ev)) \<longrightarrow>
         (k, c) \<notin> set (subscribers (fst (tick body t s)))) \<and>
    (\<forall>p. p \<notin> set (subscribers (fst (tick body t s))) \<longrightarrow>
       p \<notin> set (map ev_subscriber (fst (snd (tick body' t' (fst (tick body t s)))))))"
proof -
  obtain s' evs out where tk: "tick body t s = (s', evs, out)"
    by (cases "tick body t s") auto
  obtain s'' evs' out' where tk': "tick body' t' s' = (s'', evs', out')"
    by (cases "tick body' t' s'") auto
  note r = tick_current_unsubscribes [OF wf nothrow cur tk]
  note once = tick_each_once [OF wf tk]
  from once(3) [OF r(1)] have cov: "set (subscribers s') \<subseteq> set (map ev_subscriber evs)" .
  have one: "count_list (map ev_subscriber evs) p = 1" if "p \<in> set (subscribers s')" for p
    using that cov once(1) by (auto simp: count_list_distinct)
  have wf': "well_formed s'" using wf tk by (rule well_formed_tick)
  from tick_each_once(2) [OF wf' tk']
  have nxt: "set (map ev_subscriber evs') \<subseteq> set (subscribers s')" .
  show ?thesis
    unfolding tk tk' fst_conv snd_conv
  proof (intro conjI ballI allI impI)
    show "out = Returned" by (rule r(1))
    show "distinct (map ev_subscriber evs)" by (rule once(1))
    show "set (map ev_subscriber evs) \<subseteq> set (subscribers s)" by (rule once(2))
    show "count_list (map ev_subscriber evs) p = 1"
      if "p \<in> set (subscribers s)"
        and "\<forall>cb r. CallUnsubscribe (r, snd p, fst p) \<notin> set (body cb)" for p
      using r(2) [OF that] by (rule one)
    show "count_list (map ev_subscriber evs) p = 1" if "p \<in> set (subscribers s')" for p
      using that by (rule one)
    show "(k, c) \<notin> set (subscribers s')"
      if "ev \<in> set evs" and "CallUnsubscribe (r, c, k) \<in> set (body (ev_callback ev))"
      for ev r c k
      using that by (rule r(3))
    show "p \<notin> set (map ev_subscriber evs')" if "p \<notin> set (subscribers s')" for p
      using that nxt by blast
  qed
qed

text \<open>
  Callback 2 of three unsubscribes itself in its own call: the three are called once each
  in that tick, and the next tick calls the other two.
\<close>

lemma self_unsubscribe_scenario:
  "subscribers three_subscribers = [(Fin 1000, 1), (Fin 1000, 2), (Fin 5000, 3)] \<and>
   current three_subscribers (0, 2, Fin 1000) \<and>
   fst (snd (tick leaver 7 three_subscribers))
     = [Notified (Fin 1000) 1 7 7, Notified (Fin 1000) 2 7 7, Notified (Fin 5000) 3 7 7] \<and>
   snd (snd (tick leaver 7 three_subscribers)) = Returned \<and>
   fst (snd (tick leaver 8 (fst (tick leaver 7 three_subscribers))))
     = [Notified (Fin 1000) 1 8 8, Notified (Fin 5000) 3 8 8]"
  by code_simp

subsection \<open>C9: getValue\<close>

text \<open>
  C9.  \<^verbatim>\<open>getValue\<close> is a read of the field \<^verbatim>\<open>#latestTime\<close>: it takes the state and
  returns a value, so it cannot fail or capture anything.  After any calls other than
  an elapsing timeout a fresh engine still returns the time given to the constructor;
  a tick makes it return the time captured by that tick; and after any further calls
  other than an elapsing timeout it returns that same time.
\<close>

theorem getValue_latest_snapshot:
  "getValue (engine (run body (filter (\<lambda>c. \<not> is_timer c) calls) (new_session t0 b))) = t0 \<and>
   getValue (fst (tick body now s)) = now \<and>
   getValue (engine (run body (filter (\<lambda>c. \<not> is_timer c) calls)
       (ss\<lparr>engine := fst (tick body now s)\<rparr>))) = now"
  by (simp add: getValue_def run_quiet_latestTime latestTime_tick new_session_def TimeSync_new_def)

subsection \<open>C10: subscribing the same callback twice\<close>

text \<open>
  C10.  In a well-formed state (every reachable state is one), subscribing the same
  callback at the same interval a second time returns the same closure and leaves the
  state as the first call left it: the callback is in the bucket once, a tick calls it
  once for that bucket, and calling the returned function takes it out of the bucket.
\<close>

theorem subscribe_same_callback_twice:
  assumes "well_formed s" and "subscribe cb k s = (u1, s1)" and "subscribe cb k s1 = (u2, s2)"
  shows "u2 = u1 \<and> s2 = s1 \<and>
         count_list (subscribers s2) (k, cb) = 1 \<and>
         count_list (map ev_subscriber (fst (snd (tick inert t s2)))) (k, cb) = 1 \<and>
         (k, cb) \<notin> set (subscribers (unsubscribe u1 s2)) \<and>
         (k, cb) \<notin> set (subscribers (unsubscribe u2 s2))"
proof -
  from subscribe_again [OF assms(2)] assms(3) have eq: "u2 = u1" "s2 = s1" by simp_all
  have wf1: "well_formed s1" using assms(1,2) by (rule well_formed_subscribe)
  note r = subscribe_result [OF assms(2)]
  from r(2,3) have mem: "(k, cb) \<in> set (subscribers s1)"
    by (simp add: subscribers_map_get [OF wf1])
  with distinct_subscribers [OF wf1] have one: "count_list (subscribers s1) (k, cb) = 1"
    by (simp add: count_list_distinct)
  obtain s' evs out where tk: "tick inert t s1 = (s', evs, out)"
    by (cases "tick inert t s1") auto
  have calm: "list_all (\<lambda>a. \<not> is_unsubscribe a) (inert c)" for c by (simp add: inert_def)
  have "deliver inert (subscribers s1) = (subscribers s1, Returned)"
    by (rule deliver_no_throw) (simp add: inert_def)
  with tick_no_unsubscribe(3) [OF calm tk]
  have "map ev_subscriber evs = subscribers s1"
    by (simp add: comp_def notification_def ev_subscriber_def)
  with tk one have once: "count_list (map ev_subscriber (fst (snd (tick inert t s1)))) (k, cb) = 1"
    by simp
  from unsubscribe_removes [OF wf1 r(2), of cb] r(1)
  have "(k, cb) \<notin> set (subscribers (unsubscribe u1 s1))" by simp
  with eq one once show ?thesis by simp
qed

theorem subscribe_same_callback_twice_witness:
  "subscribers (snd (subscribe 2 (Fin 5000) two_intervals)) = [(Fin 1000, 1), (Fin 5000, 2)] \<and>
   fst (subscribe 2 (Fin 5000) (snd (subscribe 2 (Fin 5000) two_intervals)))
     = fst (subscribe 2 (Fin 5000) two_intervals) \<and>
   snd (subscribe 2 (Fin 5000) (snd (subscribe 2 (Fin 5000) two_intervals)))
     = snd (subscribe 2 (Fin 5000) two_intervals) \<and>
   (Fin 5000, 2) \<notin> set (subscribers (unsubscribe (fst (subscribe 2 (Fin 5000) two_intervals))
      (snd (subscribe 2 (Fin 5000) two_intervals))))"
proof -
  have wf: "well_formed two_intervals"
    unfolding two_intervals_def by (rule well_formed_reachable)
  have sub: "subscribers (snd (subscribe 2 (Fin 5000) two_intervals)) = [(Fin 1000, 1), (Fin 5000, 2)]"
    by code_simp
  from subscribe_same_callback_twice
    [where s = two_intervals and cb = 2 and k = "Fin 5000" and t = 0,
      OF wf surjective_pairing surjective_pairing] sub
  show ?thesis by (elim conjE) simp
qed

end
